theory Spec2Isabelle
  imports Complex_Main "HOL-Library.Word" "HOL-Library.Monad_Syntax"
begin

unbundle bit_operations_syntax

section \<open>Machine types and vectors\<close>

text \<open>
  The octree builder works on \<open>std::vector\<close>s of 32-bit values. Unsigned keys are
  \<open>32 word\<close>; the header's \<open>int\<close> fields are \<open>32 word\<close> read with \<open>sint\<close>
  wherever the source compares them as signed numbers. Positions inside a vector are
  natural numbers: every loop counter of the source is an \<open>int\<close> that runs over
  \<open>[0, size)\<close>.
\<close>

type_synonym uint32 = "32 word"
type_synonym uint64 = "64 word"
type_synonym int32 = "32 word"

text \<open>\<open>std::vector::resize(n, v)\<close>: truncate, or pad with copies of \<open>v\<close>.\<close>

definition resize :: "nat \<Rightarrow> 'a \<Rightarrow> 'a list \<Rightarrow> 'a list" where
  "resize n v xs = take n xs @ replicate (n - length xs) v"

text \<open>
  Element access. Reading or writing a vector outside \<open>[0, size)\<close> is undefined
  behaviour in the source; the model makes it the result \<open>None\<close>. \<open>vget\<close> and
  \<open>vset\<close> take a position that cannot be negative (a loop counter), \<open>iget\<close> and
  \<open>iset\<close> a signed \<open>int\<close>.
\<close>

definition vget :: "'a list \<Rightarrow> nat \<Rightarrow> 'a option" where
  "vget xs i = (if i < length xs then Some (xs ! i) else None)"

definition vset :: "'a list \<Rightarrow> nat \<Rightarrow> 'a \<Rightarrow> 'a list option" where
  "vset xs i v = (if i < length xs then Some (xs[i := v]) else None)"

definition iget :: "'a list \<Rightarrow> int \<Rightarrow> 'a option" where
  "iget xs i = (if 0 \<le> i then vget xs (nat i) else None)"

definition iset :: "'a list \<Rightarrow> int \<Rightarrow> 'a \<Rightarrow> 'a list option" where
  "iset xs i v = (if 0 \<le> i then vset xs (nat i) v else None)"

text \<open>A \<open>for\<close> loop whose body may fail: the first failure ends the run.\<close>

fun foldM :: "('a \<Rightarrow> 's \<Rightarrow> 's option) \<Rightarrow> 'a list \<Rightarrow> 's \<Rightarrow> 's option" where
  "foldM f [] s = Some s"
| "foldM f (x # xs) s = (case f x s of None \<Rightarrow> None | Some s' \<Rightarrow> foldM f xs s')"

section \<open>Keys: sorting and run detection (octree.cpp)\<close>

text \<open>
  \<open>Octree::unique_key(keys, idx)\<close>. The loop body for one \<open>i\<close>; the state is the key
  vector (overwritten in place), the index vector and the write cursor \<open>j\<close>.
\<close>

definition unique_step ::
  "nat \<Rightarrow> uint32 list \<times> nat list \<times> nat \<Rightarrow> uint32 list \<times> nat list \<times> nat" where
  "unique_step i s = (case s of (keys, idx, j) \<Rightarrow>
     if keys ! i \<noteq> keys ! (i - 1) then (keys[j := keys ! i], idx @ [i], j + 1)
     else (keys, idx, j))"

text \<open>
  \<open>idx.clear(); idx.push_back(0); ... keys.resize(j); idx.push_back(n)\<close>. The cursor
  starts at 1 whatever the length, so an empty vector is resized to one
  value-initialised key.
\<close>

definition unique_key :: "uint32 list \<Rightarrow> uint32 list \<times> nat list" where
  "unique_key keys =
     (let n = length keys in
      case fold unique_step [1..<n] (keys, [0], 1) of (keys', idx, j) \<Rightarrow>
        (resize j 0 keys', idx @ [n]))"

text \<open>
  \<open>Octree::sort_keys\<close>. Each point's key and index are packed into one 64-bit code,
  \<open>ptr[0] = i\<close> being the low and \<open>ptr[1] = key\<close> the high half (the layout the
  specification fixes as \<open>(key << 32) | index\<close>); the codes are sorted and unpacked.
  \<open>compute_key i\<close> stands for the key the source computes for point \<open>i\<close> (truncation
  of the scaled coordinates followed by \<open>compute_key\<close>, which is declared outside
  the files at hand).
\<close>

definition pack_code :: "uint32 \<Rightarrow> nat \<Rightarrow> uint64" where
  "pack_code key i = push_bit 32 (ucast key) OR ucast (word_of_nat i :: uint32)"

definition sort_keys :: "(nat \<Rightarrow> uint32) \<Rightarrow> nat \<Rightarrow> uint32 list \<times> uint32 list" where
  "sort_keys compute_key npt =
     (let code = sort (map (\<lambda>i. pack_code (compute_key i) i) [0..<npt])
      in (map (\<lambda>c. ucast (drop_bit 32 c)) code, map (\<lambda>c. ucast c) code))"

text \<open>Position \<open>i\<close> opens a new run of equal keys.\<close>

definition run_start :: "uint32 list \<Rightarrow> nat \<Rightarrow> bool" where
  "run_start ks i = (ks ! i \<noteq> ks ! (i - 1))"

section \<open>The octree header (octree_info.cpp)\<close>

text \<open>
  The fields of \<open>OctreeInfo\<close> that the functions below read or write, named as in
  the source without the trailing underscore. The class declaration
  (\<open>octree_info.h\<close>) is not among the files at hand; its arrays have the sizes the
  file format gives them (\<open>channels[6]\<close>, \<open>locations[6]\<close>, \<open>nnum[16]\<close>,
  \<open>nnum_cum[16]\<close>, \<open>nnum_nempty[16]\<close>, \<open>ptr_dis[8]\<close>), which \<open>info_arrays_ok\<close>
  records. Thresholds are kept as real numbers; they are only stored.
\<close>

record OctreeInfo =
  magic_str :: string
  batch_size :: int32
  depth :: int32
  full_layer :: int32
  adp_layer :: int32
  is_adaptive :: bool
  has_node_dis :: bool
  key2xyz :: bool
  threshold_dist :: real
  threshold_norm :: real
  channels :: "int32 list"
  locations :: "int32 list"
  content_flags :: int32
  nnum :: "int32 list"
  nnum_cum :: "int32 list"
  nnum_nempty :: "int32 list"
  ptr_dis :: "int32 list"

definition kMagicStr :: string where
  "kMagicStr = ''_OCTREE_1.0_''"

text \<open>
  Modelled from the spec: \<open>kPTypeNum\<close>, declared in \<open>octree_info.h\<close>. The property
  table has six entries, the length of \<open>channel_max\<close> in \<open>check_format\<close>.
\<close>

definition kPTypeNum :: nat where
  "kPTypeNum = 6"

definition info_arrays_ok :: "OctreeInfo \<Rightarrow> bool" where
  "info_arrays_ok info =
     (length (channels info) = kPTypeNum \<and> length (locations info) = kPTypeNum
      \<and> length (nnum info) = 16 \<and> length (nnum_cum info) = 16
      \<and> length (nnum_nempty info) = 16 \<and> length (ptr_dis info) = 8)"

text \<open>\<open>std::to_string\<close> on an \<open>int\<close>: the decimal digits, most significant first.\<close>

definition digit_char :: "nat \<Rightarrow> char" where
  "digit_char k = ''0123456789'' ! k"

fun decimal :: "nat \<Rightarrow> string" where
  "decimal n = (if 10 \<le> n then decimal (n div 10) @ [digit_char (n mod 10)] else [digit_char n])"

declare decimal.simps [simp del]

definition to_string :: "int \<Rightarrow> string" where
  "to_string i = (if 0 \<le> i then decimal (nat i) else CHR ''-'' # decimal (nat (- i)))"

text \<open>
  \<open>OctreeInfo::check_format\<close>. The message string is built by appending; the result
  is \<open>msg.empty()\<close> together with the message. \<open>check_property\<close> is the body of the
  loop over the property table.
\<close>

definition channel_max :: "int list" where
  "channel_max = [2, 1, 8, 2 ^ 30, 1, 1]"

definition check_property :: "OctreeInfo \<Rightarrow> nat \<Rightarrow> string \<Rightarrow> string" where
  "check_property info i msg =
     (let str = to_string (int i);
          msg1 = (if sint (channels info ! i) < 0 \<and> sint (channels info ! i) > channel_max ! i
                  then msg @ ''The channel '' @ str @ '' should be in range [0, '' @
                       to_string (channel_max ! i) @ ''].'' @ [CHR 0x0A]
                  else msg);
          msg2 = (if (channels info ! i = 0) \<noteq> (content_flags info AND push_bit i 1 = 0)
                  then msg1 @ ''The content_flags_ should be consistent with channels_['' @ str @
                       ''].'' @ [CHR 0x0A]
                  else msg1)
      in if channels info ! i \<noteq> 0 \<and> locations info ! i \<noteq> - 1 \<and> locations info ! i \<noteq> depth info
         then msg2 @ ''The locations_['' @ str @ ''] should be -1 or '' @
              to_string (sint (depth info)) @ ''.'' @ [CHR 0x0A]
         else msg2)"

definition check_format :: "OctreeInfo \<Rightarrow> bool \<times> string" where
  "check_format info =
     (let msg = [];
          msg = (if kMagicStr \<noteq> magic_str info
                 then msg @ ''The version of octree format is not '' @ kMagicStr @ ''.'' @ [CHR 0x0A]
                 else msg);
          msg = (if sint (batch_size info) < 0
                 then msg @ ''The batch_size_ should be larger than 0.'' @ [CHR 0x0A] else msg);
          msg = (if sint (depth info) < 1 \<or> sint (depth info) > 8
                 then msg @ ''The depth_ should be in range [1, 8].'' @ [CHR 0x0A] else msg);
          msg = (if sint (full_layer info) < 0 \<or> sint (full_layer info) > sint (depth info)
                 then msg @ ''The full_layer_ should be in range [1, depth_].'' @ [CHR 0x0A] else msg);
          msg = (if sint (adp_layer info) < sint (full_layer info)
                    \<or> sint (adp_layer info) > sint (depth info)
                 then msg @ ''The adp_layer_ should be in range [full_layer_, depth_].'' @ [CHR 0x0A]
                 else msg);
          msg = fold (check_property info) [0..<kPTypeNum] msg
      in (msg = [], msg))"

text \<open>The setters of octree_info.cpp.\<close>

definition set_batch_size :: "int32 \<Rightarrow> OctreeInfo \<Rightarrow> OctreeInfo" where
  "set_batch_size b info = info\<lparr>batch_size := (if sint b < 1 then 1 else b)\<rparr>"

definition set_depth :: "int32 \<Rightarrow> OctreeInfo \<Rightarrow> OctreeInfo" where
  "set_depth d info =
     info\<lparr>depth := (if sint (full_layer info) < sint d then d else full_layer info)\<rparr>"

definition set_full_layer :: "int32 \<Rightarrow> OctreeInfo \<Rightarrow> OctreeInfo" where
  "set_full_layer fd info = info\<lparr>full_layer := (if sint fd < 1 then 1 else fd)\<rparr>"

text \<open>
  \<open>property_index\<close>: the position of the lowest set bit among the first
  \<open>kPTypeNum\<close>, or 0. A property type is its bit mask.
\<close>

definition property_index :: "int32 \<Rightarrow> nat" where
  "property_index ptype =
     (case find (\<lambda>i. ptype AND push_bit i 1 \<noteq> 0) [0..<kPTypeNum] of None \<Rightarrow> 0 | Some i \<Rightarrow> i)"

text \<open>
  Modelled from the spec: \<open>has_property\<close>, an inline member of \<open>octree_info.h\<close>; a
  property is present when its bit of \<open>content_flags\<close> is set, as in the sibling
  class \<open>PtsInfo\<close> of points.h.
\<close>

definition has_property :: "OctreeInfo \<Rightarrow> int32 \<Rightarrow> bool" where
  "has_property info ptype = (content_flags info AND ptype \<noteq> 0)"

definition set_channel :: "int32 \<Rightarrow> int32 \<Rightarrow> OctreeInfo \<Rightarrow> OctreeInfo" where
  "set_channel ptype ch info =
     (let i = property_index ptype in
      if sint ch > 0
      then info\<lparr>channels := (channels info)[i := ch], content_flags := content_flags info OR ptype\<rparr>
      else info\<lparr>channels := (channels info)[i := 0],
                content_flags := content_flags info AND NOT ptype\<rparr>)"

definition set_location :: "int32 \<Rightarrow> int32 \<Rightarrow> OctreeInfo \<Rightarrow> OctreeInfo" where
  "set_location ptype lc info = info\<lparr>locations := (locations info)[property_index ptype := lc]\<rparr>"

text \<open>The accessors \<open>channel(ptype)\<close> and \<open>locations(ptype)\<close>.\<close>

definition channel :: "OctreeInfo \<Rightarrow> int32 \<Rightarrow> int32" where
  "channel info ptype =
     (if \<not> has_property info ptype then 0 else channels info ! property_index ptype)"

definition locations_of :: "OctreeInfo \<Rightarrow> int32 \<Rightarrow> int32" where
  "locations_of info ptype =
     (if \<not> has_property info ptype then 0 else locations info ! property_index ptype)"

text \<open>
  Modelled from the spec: the plain setters \<open>set_adaptive_layer\<close>, \<open>set_adaptive\<close>,
  \<open>set_node_dis\<close>, \<open>set_key2xyz\<close>, \<open>set_threshold_normal\<close> and
  \<open>set_threshold_dist\<close> of \<open>octree_info.h\<close>; each stores its argument in the header
  field of that name.
\<close>

definition set_adaptive_layer :: "int32 \<Rightarrow> OctreeInfo \<Rightarrow> OctreeInfo" where
  "set_adaptive_layer d info = info\<lparr>adp_layer := d\<rparr>"

definition set_adaptive :: "bool \<Rightarrow> OctreeInfo \<Rightarrow> OctreeInfo" where
  "set_adaptive adp info = info\<lparr>is_adaptive := adp\<rparr>"

definition set_node_dis :: "bool \<Rightarrow> OctreeInfo \<Rightarrow> OctreeInfo" where
  "set_node_dis dis info = info\<lparr>has_node_dis := dis\<rparr>"

definition set_key2xyz :: "bool \<Rightarrow> OctreeInfo \<Rightarrow> OctreeInfo" where
  "set_key2xyz b info = info\<lparr>key2xyz := b\<rparr>"

definition set_threshold_normal :: "real \<Rightarrow> OctreeInfo \<Rightarrow> OctreeInfo" where
  "set_threshold_normal th info = info\<lparr>threshold_norm := th\<rparr>"

definition set_threshold_dist :: "real \<Rightarrow> OctreeInfo \<Rightarrow> OctreeInfo" where
  "set_threshold_dist th info = info\<lparr>threshold_dist := th\<rparr>"

text \<open>
  The enumerators of \<open>OctreeInfo::PropType\<close> that \<open>initialize\<close> names are declared in
  \<open>octree_info.h\<close>; their bit masks are a parameter of the model. The enumerators of
  \<open>PtsInfo::PropType\<close> are those of points.h; \<open>pt_channel\<close> stands for
  \<open>points.info().channel\<close>.
\<close>

record OctreePropType =
  kKey :: int32
  kChild :: int32
  kFeature :: int32
  kLabel :: int32
  kSplit :: int32

datatype PtsPropType = PtsInfo_kPoint | PtsInfo_kNormal | PtsInfo_kFeature | PtsInfo_KFPFH
  | PtsInfo_KRoughness | PtsInfo_kLabel

text \<open>The channel count \<open>initialize\<close> computes for the Feature property.\<close>

definition feature_channel :: "bool \<Rightarrow> (PtsPropType \<Rightarrow> int32) \<Rightarrow> int32" where
  "feature_channel node_displacement pt_channel =
     (let channel = pt_channel PtsInfo_kNormal + pt_channel PtsInfo_kFeature
                    + pt_channel PtsInfo_KFPFH + pt_channel PtsInfo_KRoughness
      in if node_displacement then channel + 1 else channel)"

definition initialize ::
  "OctreePropType \<Rightarrow> int32 \<Rightarrow> int32 \<Rightarrow> bool \<Rightarrow> bool \<Rightarrow> bool \<Rightarrow> bool \<Rightarrow> int32 \<Rightarrow> real \<Rightarrow> real
   \<Rightarrow> bool \<Rightarrow> (PtsPropType \<Rightarrow> int32) \<Rightarrow> OctreeInfo \<Rightarrow> OctreeInfo" where
  "initialize P depth' full_depth node_displacement node_feature split_label adaptive adaptive_depth
     threshold_distance threshold_normal key2xyz' pt_channel info0 =
     (let info = set_batch_size 1 info0;
          info = set_depth depth' info;
          info = set_full_layer full_depth info;
          info = set_adaptive_layer adaptive_depth info;
          info = set_adaptive adaptive info;
          info = set_node_dis node_displacement info;
          info = set_key2xyz key2xyz' info;
          info = set_threshold_normal threshold_normal info;
          info = set_threshold_dist threshold_distance info;
          channel = (if key2xyz' \<and> sint depth' > 8 then 2 else 1);
          info = set_channel (kKey P) channel info;
          info = set_location (kKey P) (- 1) info;
          info = set_channel (kChild P) 1 info;
          info = set_location (kChild P) (- 1) info;
          info = (if split_label
                  then set_location (kSplit P) (- 1) (set_channel (kSplit P) 1 info) else info);
          channel = feature_channel node_displacement pt_channel;
          info = set_channel (kFeature P) channel info;
          location = (if node_feature \<or> adaptive then - 1 else depth');
          info = set_location (kFeature P) location info;
          info = (if pt_channel PtsInfo_kLabel = 1
                  then (let info = set_channel (kLabel P) 1 info;
                            location = (if node_feature \<or> adaptive then - 1 else depth')
                        in set_location (kLabel P) location info)
                  else info)
      in info)"

text \<open>
  Modelled from the spec: the accessors \<open>total_nnum_capacity()\<close> and \<open>nnum(d)\<close> of
  \<open>octree_info.h\<close>. The first reads the slot \<open>nnum_cum_[depth_ + 2]\<close>, which
  \<open>set_nnum_cum\<close> fills with the larger of the requested capacity and the total
  node count; the second reads \<open>nnum_[d]\<close>.
\<close>

definition total_nnum_capacity :: "OctreeInfo \<Rightarrow> int32 option" where
  "total_nnum_capacity info = iget (nnum_cum info) (sint (depth info) + 2)"

definition nnum_at :: "OctreeInfo \<Rightarrow> int32 \<Rightarrow> int32 option" where
  "nnum_at info d = iget (nnum info) (sint d)"

text \<open>\<open>OctreeInfo::set_nnum_cum(capacity)\<close>; \<open>nnum_cum_step\<close> is the loop body.\<close>

definition nnum_cum_step :: "int32 list \<Rightarrow> nat \<Rightarrow> int32 list \<Rightarrow> int32 list option" where
  "nnum_cum_step nn d cum = do {
     a \<leftarrow> vget cum (d - 1);
     b \<leftarrow> vget nn (d - 1);
     vset cum d (a + b) }"

definition set_nnum_cum :: "int32 \<Rightarrow> OctreeInfo \<Rightarrow> OctreeInfo option" where
  "set_nnum_cum capacity info = do {
     cum \<leftarrow> vset (nnum_cum info) 0 0;
     cum \<leftarrow> foldM (nnum_cum_step (nnum info)) [1..<nat (sint (depth info) + 2)] cum;
     t \<leftarrow> iget cum (sint (depth info) + 1);
     cum \<leftarrow> iset cum (sint (depth info) + 2) (if sint capacity > sint t then capacity else t);
     Some (info\<lparr>nnum_cum := cum\<rparr>) }"

text \<open>
  \<open>OctreeInfo::set_ptr_dis()\<close>; \<open>ptr_dis_step\<close> is the loop body. The byte size of
  the header, \<open>sizeof(OctreeInfo)\<close>, is a parameter. The offsets are \<open>int\<close>s computed
  through \<open>size_t\<close>, that is modulo \<open>2^32\<close>.
\<close>

definition ptr_dis_step :: "OctreeInfo \<Rightarrow> nat \<Rightarrow> int32 list \<Rightarrow> int32 list option" where
  "ptr_dis_step info i pd = do {
     let ptype = push_bit (i - 1) 1;
     let lc = locations_of info ptype;
     num \<leftarrow> (if lc = - 1 then total_nnum_capacity info else nnum_at info lc);
     prev \<leftarrow> vget pd (i - 1);
     ch \<leftarrow> vget (channels info) (i - 1);
     vset pd i (prev + 4 * num * ch) }"

definition set_ptr_dis :: "int32 \<Rightarrow> OctreeInfo \<Rightarrow> OctreeInfo option" where
  "set_ptr_dis sizeof_OctreeInfo info = do {
     pd \<leftarrow> vset (ptr_dis info) 0 sizeof_OctreeInfo;
     pd \<leftarrow> foldM (ptr_dis_step info) [1..<kPTypeNum + 1] pd;
     Some (info\<lparr>ptr_dis := pd\<rparr>) }"

text \<open>
  Notions used to state the offset property: the node count a property is stored
  for, the total node count of the layers \<open>0..depth\<close>, the capacity
  \<open>set_nnum_cum\<close> records, and the byte length a property should occupy.
\<close>

definition prop_num :: "OctreeInfo \<Rightarrow> nat \<Rightarrow> int32 option" where
  "prop_num info K = (let lc = locations_of info (push_bit K 1)
                      in if lc = - 1 then total_nnum_capacity info else nnum_at info lc)"

definition total_nnum_of :: "OctreeInfo \<Rightarrow> int32" where
  "total_nnum_of info = sum_list (take (nat (sint (depth info)) + 1) (nnum info))"

definition node_capacity :: "int32 \<Rightarrow> OctreeInfo \<Rightarrow> int32" where
  "node_capacity capacity info =
     (if sint capacity > sint (total_nnum_of info) then capacity else total_nnum_of info)"

definition property_length :: "int32 \<Rightarrow> OctreeInfo \<Rightarrow> nat \<Rightarrow> int32" where
  "property_length capacity info K =
     (if has_property info (push_bit K 1)
      then 4 * channels info ! K *
           (if locations info ! K = - 1 then node_capacity capacity info
            else nnum info ! nat (sint (locations info ! K)))
      else 0)"

text \<open>
  Well-formedness of a header: every present property is stored either for all
  layers or for one layer that exists, and \<open>channels\<close> agrees with \<open>content_flags\<close>
  (the invariant \<open>set_channel\<close> maintains and \<open>check_format\<close> tests).
\<close>

definition locations_valid :: "OctreeInfo \<Rightarrow> bool" where
  "locations_valid info =
     list_all (\<lambda>K. has_property info (push_bit K 1) \<longrightarrow>
                 locations info ! K = - 1
                 \<or> (0 \<le> sint (locations info ! K) \<and> sint (locations info ! K) < 16))
       [0..<kPTypeNum]"

definition flags_consistent :: "OctreeInfo \<Rightarrow> bool" where
  "flags_consistent info =
     list_all (\<lambda>K. (channels info ! K = 0) = (\<not> has_property info (push_bit K 1))) [0..<kPTypeNum]"

text \<open>
  A header for a tree of depth 1 with one root and eight leaves; Key, Child and a
  three-channel Feature stored at the finest layer (table entries 0, 1 and 3).
\<close>

definition info_example :: OctreeInfo where
  "info_example = \<lparr>magic_str = ''_OCTREE_1.0_'', batch_size = 1, depth = 1, full_layer = 1,
     adp_layer = 1, is_adaptive = False, has_node_dis = False, key2xyz = False,
     threshold_dist = 0, threshold_norm = 0,
     channels = [1, 1, 0, 3, 0, 0], locations = [- 1, - 1, 0, 1, 0, 0], content_flags = 11,
     nnum = [1, 8] @ replicate 14 0, nnum_cum = replicate 16 0, nnum_nempty = replicate 16 0,
     ptr_dis = replicate 8 0\<rparr>"

definition prop_types_example :: OctreePropType where
  "prop_types_example = \<lparr>kKey = 1, kChild = 2, kFeature = 8, kLabel = 16, kSplit = 32\<rparr>"

section \<open>Serialisation of the feature property (octree.cpp)\<close>

text \<open>
  \<open>Octree::serialize\<close>, the part that builds \<open>features\<close>: it starts as a copy of
  \<open>avg_normals_\<close>, and for every layer the four other signals are inserted at the
  end, one after the other. The element type is left open: the values are copied.
\<close>

definition concat_features_step ::
  "'a list list \<Rightarrow> 'a list list \<Rightarrow> 'a list list \<Rightarrow> 'a list list \<Rightarrow> nat \<Rightarrow> 'a list list
   \<Rightarrow> 'a list list option" where
  "concat_features_step displacement avg_features avg_fpfh avg_roughness d features = do {
     f \<leftarrow> vget features d; x \<leftarrow> vget displacement d;
     features \<leftarrow> vset features d (f @ x);
     f \<leftarrow> vget features d; x \<leftarrow> vget avg_features d;
     features \<leftarrow> vset features d (f @ x);
     f \<leftarrow> vget features d; x \<leftarrow> vget avg_fpfh d;
     features \<leftarrow> vset features d (f @ x);
     f \<leftarrow> vget features d; x \<leftarrow> vget avg_roughness d;
     vset features d (f @ x) }"

definition serialize_features ::
  "int32 \<Rightarrow> 'a list list \<Rightarrow> 'a list list \<Rightarrow> 'a list list \<Rightarrow> 'a list list \<Rightarrow> 'a list list
   \<Rightarrow> 'a list list option" where
  "serialize_features depth' avg_normals displacement avg_features avg_fpfh avg_roughness =
     foldM (concat_features_step displacement avg_features avg_fpfh avg_roughness)
       [0..<nat (sint depth' + 1)] avg_normals"

text \<open>
  The template \<open>Octree::serialize(des, src, location)\<close>; the result is the sequence
  of values written from \<open>des\<close> on.
\<close>

definition serialize_vec :: "int32 \<Rightarrow> 'a list list \<Rightarrow> int32 \<Rightarrow> 'a list option" where
  "serialize_vec depth' src location =
     (if location = - 1
      then foldM (\<lambda>d des. do { s \<leftarrow> vget src d; Some (des @ s) }) [0..<nat (sint depth' + 1)] []
      else iget src (sint location))"

section \<open>The node arrays (octree.cpp)\<close>


text \<open>
  \<open>Octree::build_structure(node_keys)\<close>. The state is the pair of per-layer
  vectors \<open>keys_\<close> and \<open>children_\<close>; \<open>depth_\<close> and \<open>full_layer_\<close> are
  natural numbers (\<open>set_full_layer\<close> and \<open>set_depth\<close> keep them at 1 or above).
  Children are \<open>int\<close>s: \<open>-1\<close> or a node index.

  \<open>full_layer_step\<close> is the body of the first loop, for one \<open>curr_depth\<close> in
  \<open>0..full_layer_\<close>. \<open>int n = 1 << 3 * curr_depth\<close> is \<open>2 ^ (3 * curr_depth)\<close> as
  long as the shift stays below the sign bit; beyond that the model fails.
\<close>

definition full_layer_step ::
  "nat \<Rightarrow> nat \<Rightarrow> uint32 list list \<times> int list list \<Rightarrow> (uint32 list list \<times> int list list) option" where
  "full_layer_step full_layer' curr_depth s = (case s of (keys_all, children_all) \<Rightarrow> do {
     children \<leftarrow> vget children_all curr_depth;
     keys \<leftarrow> vget keys_all curr_depth;
     n \<leftarrow> (if 3 * curr_depth < 31 then Some (2 ^ (3 * curr_depth)) else None);
     let keys = resize n (- 1) keys;
     let children = resize n (- 1) children;
     let keys = fold (\<lambda>i keys. keys[i := word_of_nat i]) [0..<n] keys;
     let children = (if curr_depth \<noteq> full_layer'
                     then fold (\<lambda>i children. children[i := int i]) [0..<n] children
                     else children);
     keys_all \<leftarrow> vset keys_all curr_depth keys;
     children_all \<leftarrow> vset children_all curr_depth children;
     Some (keys_all, children_all) })"

text \<open>
  The second loop, from \<open>depth_\<close> down to \<open>full_layer_ + 1\<close>. \<open>addr_step\<close> is
  the body of the loop that fills \<open>addr\<close> (one run of equal parent keys per
  \<open>i\<close>), \<open>child_step\<close> the body of the loop that sets the children pointers, and
  \<open>layer_step\<close> one iteration over \<open>curr_depth\<close>; its state carries \<open>node_keys\<close>,
  which is swapped with \<open>parent_keys\<close> at the end. \<open>int nch = np << 3\<close> fails when
  it leaves the range of \<open>int\<close>.
\<close>

definition addr_step :: "nat list \<Rightarrow> nat \<Rightarrow> uint32 list \<Rightarrow> uint32 list option" where
  "addr_step parent_pidx i addr = do {
     lo \<leftarrow> vget parent_pidx i;
     hi \<leftarrow> vget parent_pidx (i + 1);
     foldM (\<lambda>j addr. vset addr j (push_bit 3 (word_of_nat i))) [lo..<hi] addr }"

definition child_step :: "uint32 list \<Rightarrow> uint32 list \<Rightarrow> nat \<Rightarrow> int list \<Rightarrow> int list option" where
  "child_step node_keys addr i children = do {
     a \<leftarrow> vget addr i;
     let k = (node_keys ! i AND 7) OR a;
     vset children (unat k) (int i) }"

definition layer_step ::
  "nat \<Rightarrow> uint32 list list \<times> int list list \<times> uint32 list
   \<Rightarrow> (uint32 list list \<times> int list list \<times> uint32 list) option" where
  "layer_step curr_depth s = (case s of (keys_all, children_all, node_keys) \<Rightarrow> do {
     let n = length node_keys;
     let parent_keys = map (\<lambda>k. drop_bit 3 k) node_keys;
     let (parent_keys, parent_pidx) = unique_key parent_keys;
     let np = length parent_keys;
     nch \<leftarrow> (if 8 * int np < 2 ^ 31 then Some (8 * np) else None);
     children \<leftarrow> vget children_all curr_depth;
     keys \<leftarrow> vget keys_all curr_depth;
     let children = resize nch (- 1) children;
     let keys = resize nch 0 keys;
     let keys = fold (\<lambda>i keys. keys[i := push_bit 3 (parent_keys ! (i div 8)) OR word_of_nat (i mod 8)])
                  [0..<nch] keys;
     let addr = replicate nch 0;
     addr \<leftarrow> foldM (addr_step parent_pidx) [0..<np] addr;
     children \<leftarrow> foldM (child_step node_keys addr) [0..<n] children;
     keys_all \<leftarrow> vset keys_all curr_depth keys;
     children_all \<leftarrow> vset children_all curr_depth children;
     Some (keys_all, children_all, parent_keys) })"

text \<open>
  The last loop sets the children of layer \<open>full_layer_\<close> from the keys that
  survive, and runs only when \<open>depth_ > full_layer_\<close>.
\<close>

definition full_children_step :: "nat \<Rightarrow> uint32 list \<Rightarrow> nat \<Rightarrow> int list list \<Rightarrow> int list list option" where
  "full_children_step full_layer' node_keys i children_all = do {
     let j = node_keys ! i;
     children \<leftarrow> vget children_all full_layer';
     children \<leftarrow> vset children (unat j) (int i);
     vset children_all full_layer' children }"

text \<open>
  \<open>build\<close> calls \<open>clear(depth)\<close> first, so \<open>children_.resize(depth_ + 1)\<close> and
  \<open>keys_.resize(depth_ + 1)\<close> yield one empty vector per layer.
\<close>

definition build_structure ::
  "nat \<Rightarrow> nat \<Rightarrow> uint32 list \<Rightarrow> (uint32 list list \<times> int list list) option" where
  "build_structure depth' full_layer' node_keys = do {
     let children_all = resize (depth' + 1) [] [];
     let keys_all = resize (depth' + 1) [] [];
     (keys_all, children_all) \<leftarrow>
        foldM (full_layer_step full_layer') [0..<full_layer' + 1] (keys_all, children_all);
     (keys_all, children_all, node_keys) \<leftarrow>
        foldM layer_step (rev [full_layer' + 1..<depth' + 1]) (keys_all, children_all, node_keys);
     children_all \<leftarrow>
        (if depth' > full_layer'
         then foldM (full_children_step full_layer' node_keys) [0..<length node_keys] children_all
         else Some children_all);
     Some (keys_all, children_all) }"

text \<open>
  Notions used to state and prove the structure properties. \<open>parents K\<close> is the key
  list the layer loop hands to the next iteration, \<open>node_keys_at depth K d\<close> the
  key list of layer \<open>d\<close> when the loop starts from \<open>K\<close> at layer \<open>depth\<close>.
  \<open>blocks U keys\<close>: \<open>keys\<close> consists of one block of eight child keys per entry of
  \<open>U\<close>. \<open>traces K keys children\<close>: every child pointer that is not \<open>-1\<close> is the
  position in \<open>K\<close> of the key stored beside it, and every key of \<open>K\<close> is stored
  beside a child pointer that is not \<open>-1\<close>. \<open>child_slot\<close> is the slot and value
  that \<open>child_step\<close> writes.
\<close>

definition parents :: "uint32 list \<Rightarrow> uint32 list" where
  "parents K = fst (unique_key (map (\<lambda>k. drop_bit 3 k) K))"

definition node_keys_at :: "nat \<Rightarrow> uint32 list \<Rightarrow> nat \<Rightarrow> uint32 list" where
  "node_keys_at depth' K d = (parents ^^ (depth' - d)) K"

definition blocks :: "uint32 list \<Rightarrow> uint32 list \<Rightarrow> bool" where
  "blocks U keys \<longleftrightarrow> length keys = 8 * length U
     \<and> (\<forall>b<length U. \<forall>k<8. keys ! (8 * b + k) = push_bit 3 (U ! b) OR word_of_nat k)"

definition traces :: "uint32 list \<Rightarrow> uint32 list \<Rightarrow> int list \<Rightarrow> bool" where
  "traces K keys children \<longleftrightarrow> length children = length keys
     \<and> (\<forall>s<length children. children ! s \<noteq> - 1 \<longrightarrow>
            (\<exists>i<length K. children ! s = int i \<and> keys ! s = K ! i))
     \<and> (\<forall>i<length K. \<exists>s<length children. children ! s \<noteq> - 1 \<and> keys ! s = K ! i)"

definition child_slot :: "uint32 list \<Rightarrow> uint32 list \<Rightarrow> nat \<Rightarrow> (nat \<times> int) option" where
  "child_slot K addr i =
     (case vget addr i of None \<Rightarrow> None | Some a \<Rightarrow> Some (unat ((K ! i AND 7) OR a), int i))"

text \<open>
  The relation between a layer and the one above it: the number of keys is a
  multiple of 8, and every internal node \<open>i\<close> of the upper layer, with child block
  \<open>b = children_dp[i]\<close>, finds its key extended by \<open>k\<close> at position \<open>8 b + k\<close>.
\<close>

definition block_keys_ok :: "uint32 list \<Rightarrow> int list \<Rightarrow> uint32 list \<Rightarrow> bool" where
  "block_keys_ok keys_d children_dp keys_dp =
     (length keys_d mod 8 = 0 \<and>
      list_all (\<lambda>i. children_dp ! i \<noteq> - 1 \<longrightarrow>
          0 \<le> children_dp ! i \<and> 8 * nat (children_dp ! i) + 8 \<le> length keys_d \<and>
          list_all (\<lambda>k. keys_d ! (8 * nat (children_dp ! i) + k)
                          = push_bit 3 (keys_dp ! i) OR word_of_nat k
                        \<and> drop_bit 3 (keys_d ! (8 * nat (children_dp ! i) + k)) = keys_dp ! i)
            [0..<8])
        [0..<length children_dp])"

text \<open>
  The occupied keys of layer \<open>full_layer\<close>, read off the input alone: the keys
  shifted right by three bits per layer between \<open>depth\<close> and \<open>full_layer\<close>, with
  adjacent repetitions removed. On sorted input these are the distinct shifted
  keys in increasing order.
\<close>

definition occupied_keys :: "nat \<Rightarrow> nat \<Rightarrow> uint32 list \<Rightarrow> uint32 list" where
  "occupied_keys depth' full_layer' node_keys =
     remdups_adj (map (\<lambda>k. drop_bit (3 * (depth' - full_layer')) k) node_keys)"

section \<open>Trimming the adaptive octree (octree.cpp)\<close>

text \<open>
  \<open>Octree::trim_octree\<close>. The flags of its local \<open>enum TrimType\<close>.
\<close>

datatype TrimType = kDrop | kDropChildren | kKeep

text \<open>
  Modelled from the spec: \<open>node_type\<close>, \<open>kLeaf\<close> and \<open>kInternelNode\<close> are declared in
  \<open>octree.h\<close>, which is not among the sources; the specification fixes that a node is a
  leaf exactly when its child pointer is \<open>-1\<close>.
\<close>

datatype NodeType = kLeaf | kInternelNode

definition node_type :: "int \<Rightarrow> NodeType" where
  "node_type t = (if t = - 1 then kLeaf else kInternelNode)"

text \<open>
  Modelled from the spec: the header accessors \<open>is_adaptive()\<close>, \<open>depth()\<close>,
  \<open>adaptive_layer()\<close>, \<open>threshold_distance()\<close>, \<open>threshold_normal()\<close>,
  \<open>has_displace()\<close> and \<open>nnum(d)\<close> are inline members of \<open>octree_info.h\<close>, which is
  not among the sources; they are taken to return the header fields of the same
  name. The definitions below receive these values as the parameters
  \<open>is_adaptive'\<close>, \<open>depth'\<close>, \<open>depth_adp\<close>, \<open>th_dist\<close>, \<open>th_norm\<close>, \<open>has_dis\<close> and
  \<open>node_num\<close>.
\<close>

text \<open>
  The thresholds and the error arrays are \<open>float\<close>s; they are modelled as real
  numbers (no rounding, no NaN). \<open>int idx = t * 8 + j\<close> is computed on unbounded
  integers, and every vector access is checked: an access out of range, which is
  undefined behaviour in the source, makes the model return \<open>None\<close>.

  \<open>drop_cond\<close> is the test \<open>(!has_dis || (has_dis && distance_err_[d][idx] < th_dist))
  && normal_err_[d][idx] < th_norm\<close> with its short-circuit evaluation.
  \<open>flag_child\<close> is the body of the loop over \<open>j\<close>, \<open>flag_parent\<close> the body of the loop
  over \<open>i\<close>; the state is \<open>drop_d\<close> and \<open>all_drop\<close>.
\<close>

definition drop_cond :: "bool \<Rightarrow> real \<Rightarrow> real \<Rightarrow> real list \<Rightarrow> real list \<Rightarrow> int \<Rightarrow> bool option" where
  "drop_cond has_dis th_dist th_norm distance_err_d normal_err_d idx = do {
     a \<leftarrow> (if \<not> has_dis then Some True
           else do { de \<leftarrow> iget distance_err_d idx; Some (de < th_dist) });
     if a then do { ne \<leftarrow> iget normal_err_d idx; Some (ne < th_norm) } else Some False }"

definition flag_child ::
  "bool \<Rightarrow> real \<Rightarrow> real \<Rightarrow> real list \<Rightarrow> real list \<Rightarrow> int list \<Rightarrow> TrimType \<Rightarrow> int \<Rightarrow> nat
   \<Rightarrow> TrimType list \<times> bool \<Rightarrow> (TrimType list \<times> bool) option" where
  "flag_child has_dis th_dist th_norm distance_err_d normal_err_d children_d parent_flag t j s =
     (case s of (drop_d, all_drop) \<Rightarrow> do {
        let idx = t * 8 + int j;
        drop_d \<leftarrow>
          (if parent_flag = kKeep
           then do { c \<leftarrow> drop_cond has_dis th_dist th_norm distance_err_d normal_err_d idx;
                     if c then iset drop_d idx kDropChildren else Some drop_d }
           else iset drop_d idx kDrop);
        all_drop \<leftarrow>
          (if all_drop
           then do { f \<leftarrow> iget drop_d idx;
                     if f = kKeep
                     then do { c \<leftarrow> iget children_d idx; Some (\<not> (node_type c = kInternelNode)) }
                     else Some True }
           else Some False);
        Some (drop_d, all_drop) })"

definition flag_parent ::
  "bool \<Rightarrow> real \<Rightarrow> real \<Rightarrow> real list \<Rightarrow> real list \<Rightarrow> int list \<Rightarrow> int list \<Rightarrow> TrimType list
   \<Rightarrow> nat \<Rightarrow> TrimType list \<times> bool \<Rightarrow> (TrimType list \<times> bool) option" where
  "flag_parent has_dis th_dist th_norm distance_err_d normal_err_d children_d children_dp drop_dp i s =
     do {
       t \<leftarrow> vget children_dp i;
       if node_type t = kLeaf then Some s
       else do {
         p \<leftarrow> vget drop_dp i;
         foldM (flag_child has_dis th_dist th_norm distance_err_d normal_err_d children_d p t)
           [0..<8] s } }"

text \<open>
  The second pass, run when \<open>all_drop\<close> is still set: \<open>max_child\<close> and \<open>max_parent\<close>
  are the bodies of its loops over \<open>j\<close> and \<open>i\<close>, with the state \<open>(max_idx, max_err)\<close>
  starting at \<open>(0, -1.0f)\<close>; \<open>restore_keep\<close> ends with \<open>drop_d[max_idx] = kKeep\<close>.
\<close>

definition max_child ::
  "real list \<Rightarrow> int list \<Rightarrow> int \<Rightarrow> nat \<Rightarrow> int \<times> real \<Rightarrow> (int \<times> real) option" where
  "max_child normal_err_d children_d t j s =
     (case s of (max_idx, max_err) \<Rightarrow> do {
        let idx = t * 8 + int j;
        c \<leftarrow> iget children_d idx;
        if node_type c = kInternelNode
        then do { ne \<leftarrow> iget normal_err_d idx;
                  if ne > max_err then Some (idx, ne) else Some (max_idx, max_err) }
        else Some (max_idx, max_err) })"

definition max_parent ::
  "real list \<Rightarrow> int list \<Rightarrow> int list \<Rightarrow> TrimType list \<Rightarrow> nat \<Rightarrow> int \<times> real
   \<Rightarrow> (int \<times> real) option" where
  "max_parent normal_err_d children_d children_dp drop_dp i s = do {
     t \<leftarrow> vget children_dp i;
     if node_type t = kLeaf then Some s
     else do {
       p \<leftarrow> vget drop_dp i;
       if p \<noteq> kKeep then Some s
       else foldM (max_child normal_err_d children_d t) [0..<8] s } }"

definition restore_keep ::
  "nat \<Rightarrow> real list \<Rightarrow> int list \<Rightarrow> int list \<Rightarrow> TrimType list \<Rightarrow> TrimType list
   \<Rightarrow> TrimType list option" where
  "restore_keep nnum_dp normal_err_d children_d children_dp drop_dp drop_d = do {
     (max_idx, max_err) \<leftarrow>
        foldM (max_parent normal_err_d children_d children_dp drop_dp) [0..<nnum_dp] (0, - 1);
     iset drop_d max_idx kKeep }"

text \<open>
  \<open>drop_layer\<close> is the work done for one \<open>d\<close>, \<open>drop_step\<close> the body of the loop over
  \<open>d\<close> acting on the table \<open>drop\<close>, \<open>init_drop\<close> the body of the loop that sizes
  \<open>drop[d]\<close> to \<open>nnum(d)\<close> entries \<open>kKeep\<close>, and \<open>generate_drop\<close> the two loops together.
  \<open>node_num\<close> is the header array \<open>nnum_\<close> that \<open>oct_info_.nnum(d)\<close> reads, taken as
  natural numbers. For \<open>d = 0\<close> the source would read \<open>children_[-1]\<close>; the model fails.
\<close>

definition drop_layer ::
  "bool \<Rightarrow> real \<Rightarrow> real \<Rightarrow> nat \<Rightarrow> real list \<Rightarrow> real list \<Rightarrow> int list \<Rightarrow> int list
   \<Rightarrow> TrimType list \<Rightarrow> TrimType list \<Rightarrow> TrimType list option" where
  "drop_layer has_dis th_dist th_norm nnum_dp distance_err_d normal_err_d children_d children_dp
     drop_dp drop_d = do {
     (drop_d, all_drop) \<leftarrow>
        foldM (flag_parent has_dis th_dist th_norm distance_err_d normal_err_d children_d
                 children_dp drop_dp) [0..<nnum_dp] (drop_d, True);
     if all_drop then restore_keep nnum_dp normal_err_d children_d children_dp drop_dp drop_d
     else Some drop_d }"

definition drop_step ::
  "bool \<Rightarrow> real \<Rightarrow> real \<Rightarrow> nat list \<Rightarrow> real list list \<Rightarrow> real list list \<Rightarrow> int list list
   \<Rightarrow> nat \<Rightarrow> TrimType list list \<Rightarrow> TrimType list list option" where
  "drop_step has_dis th_dist th_norm node_num distance_err_all normal_err_all children_all d drop_all = do {
     nnum_dp \<leftarrow> (if d = 0 then None else vget node_num (d - 1));
     children_d \<leftarrow> vget children_all d;
     children_dp \<leftarrow> vget children_all (d - 1);
     drop_d \<leftarrow> vget drop_all d;
     drop_dp \<leftarrow> vget drop_all (d - 1);
     distance_err_d \<leftarrow> vget distance_err_all d;
     normal_err_d \<leftarrow> vget normal_err_all d;
     drop_d \<leftarrow> drop_layer has_dis th_dist th_norm nnum_dp distance_err_d normal_err_d
                  children_d children_dp drop_dp drop_d;
     vset drop_all d drop_d }"

definition init_drop :: "nat list \<Rightarrow> nat \<Rightarrow> TrimType list list \<Rightarrow> TrimType list list option" where
  "init_drop node_num d drop_all = do {
     n \<leftarrow> vget node_num d; Some (drop_all @ [replicate n kKeep]) }"

definition generate_drop ::
  "bool \<Rightarrow> real \<Rightarrow> real \<Rightarrow> nat \<Rightarrow> nat \<Rightarrow> nat list \<Rightarrow> real list list \<Rightarrow> real list list
   \<Rightarrow> int list list \<Rightarrow> TrimType list list option" where
  "generate_drop has_dis th_dist th_norm depth' depth_adp node_num distance_err_all normal_err_all
     children_all = do {
     drop_all \<leftarrow> foldM (init_drop node_num) [0..<depth' + 1] [];
     foldM (drop_step has_dis th_dist th_norm node_num distance_err_all normal_err_all children_all)
       [depth_adp..<depth' + 1] drop_all }"








text \<open>
  A small adaptive octree of depth 2 with \<open>depth_adp = 1\<close>, the one that
  \<open>build_structure\<close> returns for the keys 25, 31 and 56 with full layer 1: the root,
  one block of eight nodes of which nodes 3 and 7 are internal, and their two
  blocks. The normal errors are chosen so that both internal nodes of layer 1 pass
  the threshold test.
\<close>

definition ex_children :: "int list list" where
  "ex_children = [[0], [- 1, - 1, - 1, 0, - 1, - 1, - 1, 1],
     [- 1, 0, - 1, - 1, - 1, - 1, - 1, 1, 2, - 1, - 1, - 1, - 1, - 1, - 1, - 1]]"

definition ex_keys :: "uint32 list list" where
  "ex_keys = [[0], [0,1,2,3,4,5,6,7], [24,25,26,27,28,29,30,31,56,57,58,59,60,61,62,63]]"

definition ex_nerr :: "real list list" where
  "ex_nerr = [[], [100, 100, 100, 1/2, 100, 100, 100, 1/4], replicate 16 100]"

text \<open>
  Notions used to state the flag rule. \<open>condp\<close> is the threshold test on entry
  \<open>s\<close>, \<open>new_flag\<close> the flag a child receives from its parent's flag, the test and its
  old flag. \<open>blk children_dp i s\<close>: slot \<open>s\<close> lies in the child block of the internal
  parent \<open>i\<close>. \<open>cand\<close> is the set the second pass runs over: the internal children of
  the internal parents below \<open>m\<close> whose flag is \<open>kKeep\<close>. \<open>maxinv\<close> is the invariant of
  that pass and \<open>kept\<close> the indices that survive trimming.
\<close>

definition condp :: "bool \<Rightarrow> real \<Rightarrow> real \<Rightarrow> real list \<Rightarrow> real list \<Rightarrow> nat \<Rightarrow> bool" where
  "condp has_dis th_dist th_norm distance_err_d normal_err_d s =
     ((\<not> has_dis \<or> distance_err_d ! s < th_dist) \<and> normal_err_d ! s < th_norm)"

definition new_flag :: "TrimType \<Rightarrow> bool \<Rightarrow> TrimType \<Rightarrow> TrimType" where
  "new_flag parent_flag c old =
     (if parent_flag = kKeep then (if c then kDropChildren else old) else kDrop)"

definition blk :: "int list \<Rightarrow> nat \<Rightarrow> nat \<Rightarrow> bool" where
  "blk cp i s \<longleftrightarrow> cp ! i \<noteq> - 1 \<and> 8 * nat (cp ! i) \<le> s \<and> s < 8 * nat (cp ! i) + 8"

definition cand :: "int list \<Rightarrow> TrimType list \<Rightarrow> int list \<Rightarrow> nat \<Rightarrow> nat set" where
  "cand cp fp cd m = {s. \<exists>i<m. blk cp i s \<and> fp ! i = kKeep \<and> cd ! s \<noteq> - 1}"

definition maxinv :: "real list \<Rightarrow> nat set \<Rightarrow> int \<times> real \<Rightarrow> bool" where
  "maxinv ne C s \<longleftrightarrow> (case s of (mi, me) \<Rightarrow>
     ((mi = 0 \<and> me = - 1) \<or> (0 \<le> mi \<and> nat mi \<in> C \<and> me = ne ! nat mi))
     \<and> (\<forall>s\<in>C. ne ! s \<le> me) \<and> - 1 \<le> me)"


text \<open>
  Well-formedness of the input of \<open>trim_octree\<close>. \<open>layer_wf\<close>: the arrays of layer
  \<open>d\<close> have \<open>nnum_d\<close> entries (the distance errors only when they are used), every
  internal node of layer \<open>d - 1\<close> points to a block of eight nodes inside layer \<open>d\<close>,
  and different internal nodes point to different blocks. \<open>internal_err_ok\<close>: the
  normal error of an internal node is above the start value \<open>-1\<close> of the second pass
  (the errors are means of squares or \<open>1.0e20f\<close>). \<open>parents_nonempty\<close>: every internal
  node of layer \<open>d - 1\<close> has an internal child in layer \<open>d\<close>. \<open>trim_wf\<close>:
  \<open>1 \<le> depth_adp \<le> depth\<close>, all tables have \<open>depth + 1\<close> layers of \<open>nnum[d]\<close> entries,
  the first two conditions hold for every layer from \<open>depth_adp\<close> to \<open>depth\<close>, the
  third for every layer from \<open>depth_adp + 1\<close> to \<open>depth\<close> (below the full layers a
  node is internal only if it is occupied, and an occupied node has an occupied
  child), and some internal node of layer \<open>depth_adp - 1\<close> has an internal child.
\<close>

definition layer_wf ::
  "bool \<Rightarrow> nat \<Rightarrow> nat \<Rightarrow> real list \<Rightarrow> real list \<Rightarrow> int list \<Rightarrow> int list \<Rightarrow> bool" where
  "layer_wf has_dis nnum_dp nnum_d distance_err_d normal_err_d children_d children_dp =
     (nnum_dp \<le> length children_dp
      \<and> length children_d = nnum_d \<and> length normal_err_d = nnum_d
      \<and> (has_dis \<longrightarrow> length distance_err_d = nnum_d)
      \<and> list_all (\<lambda>i. children_dp ! i \<noteq> - 1 \<longrightarrow>
                    0 \<le> children_dp ! i \<and> 8 * nat (children_dp ! i) + 8 \<le> nnum_d) [0..<nnum_dp]
      \<and> distinct (filter (\<lambda>t. t \<noteq> - 1) (take nnum_dp children_dp)))"

definition internal_err_ok :: "nat \<Rightarrow> real list \<Rightarrow> int list \<Rightarrow> bool" where
  "internal_err_ok nnum_d normal_err_d children_d =
     list_all (\<lambda>s. children_d ! s \<noteq> - 1 \<longrightarrow> - 1 < normal_err_d ! s) [0..<nnum_d]"

definition parents_nonempty :: "nat \<Rightarrow> int list \<Rightarrow> int list \<Rightarrow> bool" where
  "parents_nonempty nnum_dp children_d children_dp =
     list_all (\<lambda>i. children_dp ! i \<noteq> - 1 \<longrightarrow>
                 list_ex (\<lambda>j. children_d ! (8 * nat (children_dp ! i) + j) \<noteq> - 1) [0..<8])
       [0..<nnum_dp]"

definition trim_wf ::
  "bool \<Rightarrow> nat \<Rightarrow> nat \<Rightarrow> nat list \<Rightarrow> real list list \<Rightarrow> real list list \<Rightarrow> uint32 list list
   \<Rightarrow> int list list \<Rightarrow> bool" where
  "trim_wf has_dis depth' depth_adp node_num distance_err_all normal_err_all keys_all children_all =
     (1 \<le> depth_adp \<and> depth_adp \<le> depth'
      \<and> length node_num = depth' + 1 \<and> length distance_err_all = depth' + 1
      \<and> length normal_err_all = depth' + 1 \<and> length keys_all = depth' + 1
      \<and> length children_all = depth' + 1
      \<and> list_all (\<lambda>d. length (keys_all ! d) = node_num ! d
                      \<and> length (children_all ! d) = node_num ! d) [0..<depth' + 1]
      \<and> list_all (\<lambda>d. layer_wf has_dis (node_num ! (d - 1)) (node_num ! d) (distance_err_all ! d)
                        (normal_err_all ! d) (children_all ! d) (children_all ! (d - 1))
                      \<and> internal_err_ok (node_num ! d) (normal_err_all ! d) (children_all ! d))
           [depth_adp..<depth' + 1]
      \<and> list_all (\<lambda>d. parents_nonempty (node_num ! (d - 1)) (children_all ! d)
                        (children_all ! (d - 1)))
           [depth_adp + 1..<depth' + 1]
      \<and> list_ex (\<lambda>i. children_all ! (depth_adp - 1) ! i \<noteq> - 1
                    \<and> list_ex (\<lambda>j. children_all ! depth_adp
                                      ! (8 * nat (children_all ! (depth_adp - 1) ! i) + j) \<noteq> - 1)
                          [0..<8])
           [0..<node_num ! (depth_adp - 1)])"

section \<open>Properties of unique_key and sort_keys\<close>

lemma unique_fold_inv:
  assumes "1 \<le> b" "b \<le> length ks"
  shows "case fold unique_step [1..<b] (ks, [0], 1) of (ks', idx, j) \<Rightarrow>
           idx = 0 # filter (run_start ks) [1..<b] \<and> j = length idx \<and> j \<le> b
           \<and> length ks' = length ks
           \<and> (\<forall>p. b - 1 \<le> p \<longrightarrow> ks' ! p = ks ! p)
           \<and> (\<forall>r<j. ks' ! r = ks ! (idx ! r))"
  using assms
proof (induction b)
  case 0 then show ?case by simp
next
  case (Suc b)
  show ?case
  proof (cases "b = 0")
    case True then show ?thesis by simp
  next
    case False
    then have b: "1 \<le> b" "b \<le> length ks" "b < length ks" using Suc.prems by auto
    obtain ks' idx j where st: "fold unique_step [1..<b] (ks, [0], 1) = (ks', idx, j)"
      by (cases "fold unique_step [1..<b] (ks, [0], 1)") auto
    from Suc.IH[OF b(1,2)] st have inv:
      "idx = 0 # filter (run_start ks) [1..<b]" "j = length idx" "j \<le> b"
      "length ks' = length ks" "\<forall>p. b - 1 \<le> p \<longrightarrow> ks' ! p = ks ! p"
      "\<forall>r<j. ks' ! r = ks ! (idx ! r)" by auto
    have up: "[1..<Suc b] = [1..<b] @ [b]" using b by simp
    have rd: "ks' ! b = ks ! b" "ks' ! (b - 1) = ks ! (b - 1)" using inv(5) by auto
    show ?thesis
    proof (cases "run_start ks b")
      case True
      then have "fold unique_step [1..<Suc b] (ks, [0], 1) = (ks'[j := ks ! b], idx @ [b], j + 1)"
        unfolding up using st rd by (simp add: unique_step_def run_start_def)
      moreover have "\<forall>r<j+1. (ks'[j := ks ! b]) ! r = ks ! ((idx @ [b]) ! r)"
        using inv(2,3,4,6) b by (auto simp: nth_append nth_list_update less_Suc_eq)
      moreover have "\<forall>p. b \<le> p \<longrightarrow> (ks'[j := ks ! b]) ! p = ks ! p"
        using inv(2,3,4,5) b by (auto simp: nth_list_update)
      ultimately show ?thesis using inv(1,2,3,4) True b by simp
    next
      case F: False
      then have "fold unique_step [1..<Suc b] (ks, [0], 1) = (ks', idx, j)"
        unfolding up using st rd by (simp add: unique_step_def run_start_def)
      then show ?thesis using inv F b by simp
    qed
  qed
qed

lemma unique_key_idx:
  assumes "1 \<le> length ks"
  shows "snd (unique_key ks) = 0 # filter (run_start ks) [1..<length ks] @ [length ks]"
    and "fst (unique_key ks) = map (\<lambda>i. ks ! i) (0 # filter (run_start ks) [1..<length ks])"
proof -
  obtain ks' idx j where st: "fold unique_step [1..<length ks] (ks, [0], 1) = (ks', idx, j)"
    by (cases "fold unique_step [1..<length ks] (ks, [0], 1)") auto
  from unique_fold_inv[OF assms order_refl] st have inv:
      "idx = 0 # filter (run_start ks) [1..<length ks]" "j = length idx" "j \<le> length ks"
      "length ks' = length ks"
      "\<forall>r<j. ks' ! r = ks ! (idx ! r)" by auto
  show "snd (unique_key ks) = 0 # filter (run_start ks) [1..<length ks] @ [length ks]"
    using st inv(1) by (simp add: unique_key_def Let_def)
  have "resize j 0 ks' = take j ks'" using inv by (simp add: resize_def)
  also have "\<dots> = map (\<lambda>i. ks ! i) idx"
    using inv(2,3,4,5) by (intro nth_equalityI) auto
  finally have "resize j 0 ks' = map (\<lambda>i. ks ! i) idx" .
  then show "fst (unique_key ks) = map (\<lambda>i. ks ! i) (0 # filter (run_start ks) [1..<length ks])"
    using st inv(1) by (simp add: unique_key_def Let_def)
qed

lemma telescope:
  "sorted (xs :: nat list) \<Longrightarrow> xs \<noteq> [] \<Longrightarrow>
   (\<Sum>t<length xs - 1. xs ! (t + 1) - xs ! t) = last xs - hd xs"
proof (induction xs rule: rev_induct)
  case Nil then show ?case by simp
next
  case (snoc x xs)
  show ?case
  proof (cases "xs = []")
    case True then show ?thesis by simp
  next
    case False
    then obtain m where m: "length xs = Suc m" by (cases xs) auto
    have s: "sorted xs" using snoc.prems by (simp add: sorted_append)
    have "last xs \<le> x" using snoc.prems False by (simp add: sorted_append)
    moreover have "hd xs \<le> last xs"
      using s False m by (simp add: hd_conv_nth last_conv_nth sorted_nth_mono)
    ultimately have le: "last xs \<le> x" "hd xs \<le> last xs" by auto
    have "(\<Sum>t<length (xs @ [x]) - 1. (xs @ [x]) ! (t + 1) - (xs @ [x]) ! t)
        = (\<Sum>t<m. (xs @ [x]) ! (t + 1) - (xs @ [x]) ! t) + ((xs @ [x]) ! (m + 1) - (xs @ [x]) ! m)"
      using m by simp
    also have "(\<Sum>t<m. (xs @ [x]) ! (t + 1) - (xs @ [x]) ! t) = (\<Sum>t<m. xs ! (t + 1) - xs ! t)"
      using m by (intro sum.cong) (auto simp: nth_append)
    also have "\<dots> = last xs - hd xs" using snoc.IH[OF s False] m by simp
    also have "(xs @ [x]) ! (m + 1) - (xs @ [x]) ! m = x - last xs"
      using m False by (simp add: nth_append last_conv_nth)
    finally show ?thesis using le False by simp
  qed
qed

lemma strict_idx:
  "1 \<le> n \<Longrightarrow> sorted_wrt (<) (0 # filter P [1..<n] @ [n::nat])"
  by (auto simp: sorted_wrt_append sorted_wrt_filter)

lemma hi_unat: "unat (ucast (drop_bit 32 (a::uint64)) :: uint32) = unat a div 2 ^ 32"
proof -
  have "unat a < 2 ^ 64" using unsigned_less[of a] by simp
  then have "unat a div 2 ^ 32 < 2 ^ 32" by (simp add: less_mult_imp_div_less)
  moreover have "unat (ucast (drop_bit 32 a) :: uint32) = take_bit 32 (drop_bit 32 (unat a))"
    by (simp add: unsigned_ucast_eq unat_drop_bit_eq)
  ultimately show ?thesis by (simp add: take_bit_eq_mod drop_bit_eq_div)
qed

lemma hi_mono:
  "(a::uint64) \<le> b \<Longrightarrow> (ucast (drop_bit 32 a) :: uint32) \<le> ucast (drop_bit 32 b)"
  by (simp add: word_le_nat_alt hi_unat div_le_mono)

lemma sorted_map_mono:
  "sorted xs \<Longrightarrow> (\<And>a b. a \<le> b \<Longrightarrow> f a \<le> f b) \<Longrightarrow> sorted (map f xs)"
  by (induction xs) auto

lemma sort_keys_sorted: "sorted (fst (sort_keys compute_key N))"
  unfolding sort_keys_def Let_def fst_conv
  by (rule sorted_map_mono[OF sorted_sort]) (rule hi_mono)

lemma sort_keys_length: "length (fst (sort_keys compute_key N)) = N"
  by (simp add: sort_keys_def Let_def)

text \<open>
  C6. For a cloud of \<open>N > 0\<close> points the sorted keys are non-decreasing, and the run
  boundaries that \<open>unique_key\<close> records for them are strictly increasing, start at 0,
  end at \<open>N\<close>, and the run lengths add up to \<open>N\<close>.
\<close>

theorem sort_unique_boundaries:
  assumes "0 < N"
  shows "sorted (fst (sort_keys compute_key N))
       \<and> sorted_wrt (<) (snd (unique_key (fst (sort_keys compute_key N))))
       \<and> hd (snd (unique_key (fst (sort_keys compute_key N)))) = 0
       \<and> last (snd (unique_key (fst (sort_keys compute_key N)))) = N
       \<and> (\<Sum>t<length (snd (unique_key (fst (sort_keys compute_key N)))) - 1.
            snd (unique_key (fst (sort_keys compute_key N))) ! (t + 1)
            - snd (unique_key (fst (sort_keys compute_key N))) ! t) = N"
proof -
  define sk where "sk = fst (sort_keys compute_key N)"
  define uidx where "uidx = snd (unique_key sk)"
  have len: "1 \<le> length sk" "length sk = N"
    using assms by (simp_all add: sk_def sort_keys_length)
  have u: "uidx = 0 # filter (run_start sk) [1..<N] @ [N]"
    using unique_key_idx(1)[OF len(1)] len(2) by (simp add: uidx_def)
  have strict: "sorted_wrt (<) uidx"
    unfolding u using assms by (intro strict_idx) simp
  then have srt: "sorted uidx"
    by (rule sorted_wrt_mono_rel[rotated]) simp
  have hd: "hd uidx = 0" and last: "last uidx = N" by (simp_all add: u)
  have ne: "uidx \<noteq> []" by (simp add: u)
  have "(\<Sum>t<length uidx - 1. uidx ! (t + 1) - uidx ! t) = N"
    using telescope[OF srt ne] hd last by simp
  with strict hd last sort_keys_sorted[of compute_key N]
  show ?thesis unfolding uidx_def sk_def by blast
qed

theorem sort_unique_boundaries_witness:
  "(0::nat) < 4
   \<and> sorted (fst (sort_keys (\<lambda>i. [5, 3, 5, 1] ! i) 4))
   \<and> snd (unique_key (fst (sort_keys (\<lambda>i. [5, 3, 5, 1] ! i) 4))) = [0, 1, 2, 4]"
proof -
  have h: "(0::nat) < 4" by simp
  have "snd (unique_key (fst (sort_keys (\<lambda>i. [5, 3, 5, 1] ! i) 4))) = [0, 1, 2, 4]"
    by code_simp
  with sort_unique_boundaries[OF h, of "\<lambda>i. [5, 3, 5, 1] ! i"] h show ?thesis by blast
qed

text \<open>
  C10. On an empty key vector \<open>unique_key\<close> does not return two empty vectors: the
  keys become one value-initialised key \<open>0\<close> and the boundaries \<open>[0, 0]\<close>, which is
  not strictly increasing.
\<close>

theorem unique_key_empty:
  "unique_key [] = ([0], [0, 0]) \<and> \<not> sorted_wrt (<) (snd (unique_key []))"
  by (simp add: unique_key_def unique_step_def resize_def)

section \<open>Properties of the header\<close>

lemma foldM_append:
  "foldM f (xs @ ys) s = (case foldM f xs s of None \<Rightarrow> None | Some s' \<Rightarrow> foldM f ys s')"
  by (induction xs arbitrary: s) (auto split: option.splits)

subsection \<open>Setters and initialize\<close>

lemma set_channel_keeps [simp]:
  "batch_size (set_channel p c i) = batch_size i" "full_layer (set_channel p c i) = full_layer i"
  "depth (set_channel p c i) = depth i" "locations (set_channel p c i) = locations i"
  by (simp_all add: set_channel_def Let_def)

lemma set_location_keeps [simp]:
  "batch_size (set_location p c i) = batch_size i" "full_layer (set_location p c i) = full_layer i"
  "depth (set_location p c i) = depth i" "channels (set_location p c i) = channels i"
  "content_flags (set_location p c i) = content_flags i"
  by (simp_all add: set_location_def)

lemma plain_setters_keep [simp]:
  "channels (set_batch_size b i) = channels i" "channels (set_depth d i) = channels i"
  "channels (set_full_layer d i) = channels i" "channels (set_adaptive_layer d i) = channels i"
  "channels (set_adaptive a i) = channels i" "channels (set_node_dis a i) = channels i"
  "channels (set_key2xyz a i) = channels i" "channels (set_threshold_normal r i) = channels i"
  "channels (set_threshold_dist r i) = channels i"
  by (simp_all add: set_batch_size_def set_depth_def set_full_layer_def
      set_adaptive_layer_def set_adaptive_def set_node_dis_def set_key2xyz_def
      set_threshold_normal_def set_threshold_dist_def)

lemma initialize_batch_full:
  "batch_size (initialize P d fd nd nf sl ad adp td tn k2 pc info) = 1"
  "full_layer (initialize P d fd nd nf sl ad adp td tn k2 pc info) = (if sint fd < 1 then 1 else fd)"
  by (simp_all add: initialize_def Let_def set_batch_size_def set_depth_def set_full_layer_def
      set_adaptive_layer_def set_adaptive_def set_node_dis_def set_key2xyz_def
      set_threshold_normal_def set_threshold_dist_def)

lemma channels_set_channel:
  "channels (set_channel p c i) = (channels i)[property_index p := (if sint c > 0 then c else 0)]"
  by (simp add: set_channel_def Let_def)

lemma property_index_less: "property_index p < kPTypeNum"
proof (cases "find (\<lambda>i. p AND push_bit i 1 \<noteq> 0) [0..<kPTypeNum]")
  case None
  then show ?thesis by (simp add: property_index_def kPTypeNum_def)
next
  case (Some i)
  then have "i \<in> set [0..<kPTypeNum]" by (auto simp: find_Some_iff)
  then show ?thesis using Some by (simp add: property_index_def)
qed

lemma initialize_feature:
  assumes "property_index (kLabel P) \<noteq> property_index (kFeature P)"
    and "length (channels info) = kPTypeNum"
  shows "channels (initialize P d fd nd nf sl ad adp td tn k2 pc info) ! property_index (kFeature P)
         = (if sint (feature_channel nd pc) > 0 then feature_channel nd pc else 0)"
  using assms property_index_less[of "kFeature P"]
  by (simp add: initialize_def Let_def channels_set_channel nth_list_update)

text \<open>
  C9. Whatever the arguments and the header it starts from, \<open>initialize\<close> leaves
  \<open>batch_size \<ge> 1\<close> and \<open>full_layer \<ge> 1\<close>: \<open>set_batch_size\<close> and \<open>set_full_layer\<close>
  replace a value below 1 by 1 (a requested full layer of 0 becomes 1, although
  \<open>check_format\<close> accepts a header whose full layer is 0), and \<open>set_depth\<close> replaces
  a depth below the current full layer by the full layer.
\<close>

theorem initialize_coerces:
  "1 \<le> sint (batch_size (initialize P d fd nd nf sl ad adp td tn k2 pc info))
   \<and> 1 \<le> sint (full_layer (initialize P d fd nd nf sl ad adp td tn k2 pc info))
   \<and> batch_size (set_batch_size b info) = (if sint b < 1 then 1 else b)
   \<and> full_layer (set_full_layer fd info) = (if sint fd < 1 then 1 else fd)
   \<and> full_layer (initialize P d 0 nd nf sl ad adp td tn k2 pc info) = 1
   \<and> check_format (info_example\<lparr>full_layer := 0\<rparr>) = (True, [])
   \<and> depth (set_depth d info) = (if sint d < sint (full_layer info) then full_layer info else d)"
proof -
  have "check_format (info_example\<lparr>full_layer := 0\<rparr>) = (True, [])"
    by (simp add: check_format_def check_property_def info_example_def kPTypeNum_def
        kMagicStr_def upt_rec)
  moreover have "depth (set_depth d info)
      = (if sint d < sint (full_layer info) then full_layer info else d)"
    by (auto simp: set_depth_def intro: signed_word_eqI[symmetric])
  ultimately show ?thesis
    by (simp add: initialize_batch_full set_batch_size_def set_full_layer_def)
qed

subsection \<open>check_format\<close>

text \<open>
  C4. \<open>check_format\<close> does not report every violation the claim lists. A header
  whose batch size is 0 passes, since the test is \<open>batch_size_ < 0\<close> under the
  message "should be larger than 0"; and a channel count above its cap passes, since
  the test \<open>channels_[i] < 0 && channels_[i] > channel_max[i]\<close> can never hold. Here
  entry 0 of the table holds 3 channels against a cap of 2.
\<close>

theorem check_format_misses:
  "check_format (info_example\<lparr>batch_size := 0\<rparr>) = (True, [])
   \<and> sint (batch_size (info_example\<lparr>batch_size := 0\<rparr>)) < 1
   \<and> check_format (info_example\<lparr>channels := [3, 1, 0, 3, 0, 0]\<rparr>) = (True, [])
   \<and> sint (channels (info_example\<lparr>channels := [3, 1, 0, 3, 0, 0]\<rparr>) ! 0) > channel_max ! 0"
  by (simp add: check_format_def check_property_def info_example_def kPTypeNum_def
      kMagicStr_def channel_max_def upt_rec)

subsection \<open>Cumulative node counts and byte offsets\<close>

lemma nnum_cum_loop:
  assumes "n < length cum" "n \<le> length nn"
  shows "\<exists>cum'. foldM (nnum_cum_step nn) [1..<Suc n] cum = Some cum' \<and> length cum' = length cum
           \<and> (\<forall>k\<le>n. cum' ! k = cum ! 0 + sum_list (take k nn))
           \<and> (\<forall>k>n. cum' ! k = cum ! k)"
  using assms
proof (induction n)
  case 0 then show ?case by simp
next
  case (Suc n)
  then obtain cum' where c: "foldM (nnum_cum_step nn) [1..<Suc n] cum = Some cum'"
     "length cum' = length cum" "\<forall>k\<le>n. cum' ! k = cum ! 0 + sum_list (take k nn)"
     "\<forall>k>n. cum' ! k = cum ! k" by auto
  have up: "[1..<Suc (Suc n)] = [1..<Suc n] @ [Suc n]" by simp
  have nn: "n < length nn" "Suc n < length cum'" "n < length cum'" using Suc.prems c(2) by auto
  have step: "nnum_cum_step nn (Suc n) cum' = Some (cum'[Suc n := cum' ! n + nn ! n])"
    using nn by (simp add: nnum_cum_step_def vget_def vset_def)
  have "foldM (nnum_cum_step nn) [1..<Suc (Suc n)] cum = Some (cum'[Suc n := cum' ! n + nn ! n])"
    unfolding up foldM_append c(1) using step by simp
  moreover have "\<forall>k\<le>Suc n. (cum'[Suc n := cum' ! n + nn ! n]) ! k = cum ! 0 + sum_list (take k nn)"
  proof (intro allI impI)
    fix k assume "k \<le> Suc n"
    then consider "k \<le> n" | "k = Suc n" by linarith
    then show "(cum'[Suc n := cum' ! n + nn ! n]) ! k = cum ! 0 + sum_list (take k nn)"
    proof cases
      case 1 then show ?thesis using c(3) by simp
    next
      case 2
      have "sum_list (take (Suc n) nn) = sum_list (take n nn) + nn ! n"
        using nn(1) by (simp add: take_Suc_conv_app_nth)
      then show ?thesis using 2 c(3) nn by (simp add: add.assoc)
    qed
  qed
  ultimately show ?case using c(2,4) by auto
qed

lemma set_nnum_cum_result:
  assumes "0 \<le> sint (depth info)" "nat (sint (depth info)) + 2 < length (nnum_cum info)"
    "nat (sint (depth info)) < length (nnum info)"
  shows "\<exists>cum'. set_nnum_cum capacity info = Some (info\<lparr>nnum_cum := cum'\<rparr>)
     \<and> length cum' = length (nnum_cum info)
     \<and> cum' ! (nat (sint (depth info)) + 2) = node_capacity capacity info"
proof -
  define D where "D = nat (sint (depth info))"
  let ?c0 = "(nnum_cum info)[0 := 0]"
  have d: "nat (sint (depth info) + 2) = Suc (D + 1)" "nat (sint (depth info) + 1) = D + 1"
    "nat (sint (depth info) + 2) = D + 2"
    using assms(1) by (simp_all add: D_def)
  have "D + 1 < length ?c0" "D + 1 \<le> length (nnum info)" using assms(2,3) by (simp_all add: D_def)
  from nnum_cum_loop[OF this] obtain c1 where c1:
    "foldM (nnum_cum_step (nnum info)) [1..<Suc (D + 1)] ?c0 = Some c1" "length c1 = length ?c0"
    "\<forall>k\<le>D + 1. c1 ! k = ?c0 ! 0 + sum_list (take k (nnum info))" by blast
  have "0 < length (nnum_cum info)" using assms(2) by linarith
  then have "?c0 ! 0 = 0" by simp
  then have t: "c1 ! (D + 1) = total_nnum_of info"
    using c1(3) by (simp add: total_nnum_of_def D_def)
  have len: "D + 2 < length c1" "0 < length (nnum_cum info)" using assms(2) c1(2) by (auto simp: D_def)
  let ?c2 = "c1[D + 2 := node_capacity capacity info]"
  have "set_nnum_cum capacity info = Some (info\<lparr>nnum_cum := ?c2\<rparr>)"
    using c1(1) len t assms(1) unfolding set_nnum_cum_def d
    by (simp add: vset_def vget_def iget_def iset_def d node_capacity_def)
  moreover have "length ?c2 = length (nnum_cum info)" using c1(2) by simp
  moreover have "?c2 ! (D + 2) = node_capacity capacity info" using len by simp
  ultimately show ?thesis unfolding D_def by blast
qed

lemma ptr_dis_loop:
  assumes "n < length pd" "n \<le> length (channels info)" "\<forall>K<n. prop_num info K \<noteq> None"
  shows "\<exists>pd'. foldM (ptr_dis_step info) [1..<Suc n] pd = Some pd' \<and> length pd' = length pd
     \<and> pd' ! 0 = pd ! 0
     \<and> (\<forall>K<n. pd' ! (K + 1) = pd' ! K + 4 * the (prop_num info K) * channels info ! K)
     \<and> (\<forall>k>n. pd' ! k = pd ! k)"
  using assms
proof (induction n)
  case 0 then show ?case by simp
next
  case (Suc n)
  then obtain pd' where p: "foldM (ptr_dis_step info) [1..<Suc n] pd = Some pd'"
    "length pd' = length pd" "pd' ! 0 = pd ! 0"
    "\<forall>K<n. pd' ! (K + 1) = pd' ! K + 4 * the (prop_num info K) * channels info ! K"
    "\<forall>k>n. pd' ! k = pd ! k" by auto
  obtain num where num: "prop_num info n = Some num" using Suc.prems(3) by auto
  let ?v = "pd' ! n + 4 * num * channels info ! n"
  have step: "ptr_dis_step info (Suc n) pd' = Some (pd'[Suc n := ?v])"
    using num Suc.prems(1,2) p(2)
    by (simp add: ptr_dis_step_def prop_num_def Let_def vget_def vset_def)
  have up: "[1..<Suc (Suc n)] = [1..<Suc n] @ [Suc n]" by simp
  have r: "foldM (ptr_dis_step info) [1..<Suc (Suc n)] pd = Some (pd'[Suc n := ?v])"
    unfolding up foldM_append p(1) using step by simp
  have "\<forall>K<Suc n. (pd'[Suc n := ?v]) ! (K + 1)
          = (pd'[Suc n := ?v]) ! K + 4 * the (prop_num info K) * channels info ! K"
    using p(4) num Suc.prems(1) p(2) by (auto simp: nth_list_update less_Suc_eq)
  then show ?case using r p(2,3,5) by auto
qed

lemma property_index_bit: "K < kPTypeNum \<Longrightarrow> property_index (push_bit K 1) = K"
proof -
  assume "K < kPTypeNum"
  then consider "K = 0" | "K = 1" | "K = 2" | "K = 3" | "K = 4" | "K = 5"
    unfolding kPTypeNum_def by linarith
  then show ?thesis
    by cases (simp_all add: property_index_def kPTypeNum_def upt_rec)
qed

text \<open>
  C7, as the code has it. After \<open>set_nnum_cum\<close> and \<open>set_ptr_dis\<close> (the order in which
  \<open>calc_node_num\<close> calls them) on a well-formed header, \<open>ptr_dis[0]\<close> is the header
  size and every table entry \<open>K\<close> occupies \<open>ptr_dis[K+1] - ptr_dis[K]\<close> bytes, which
  is 0 for an absent property and, for a present one, 4 times its channel count times
  the node count of its location; for the location \<open>-1\<close> that count is the node
  capacity, the larger of the capacity passed to \<open>set_nnum_cum\<close> and the total
  node count of all layers.
\<close>

theorem set_ptr_dis_offsets:
  assumes ok: "info_arrays_ok info" and d0: "0 \<le> sint (depth info)" and d1: "sint (depth info) \<le> 13"
    and valid: "locations_valid info" and cons: "flags_consistent info"
  shows "\<exists>info1 info2. set_nnum_cum capacity info = Some info1 \<and> set_ptr_dis sz info1 = Some info2
     \<and> ptr_dis info2 ! 0 = sz
     \<and> (\<forall>K<kPTypeNum. ptr_dis info2 ! (K + 1) - ptr_dis info2 ! K = property_length capacity info K)"
proof -
  define D where "D = nat (sint (depth info))"
  have lens: "length (channels info) = 6" "length (locations info) = 6" "length (nnum info) = 16"
    "length (nnum_cum info) = 16" "length (ptr_dis info) = 8"
    using ok by (simp_all add: info_arrays_ok_def kPTypeNum_def)
  have D: "D \<le> 13" using d1 by (simp add: D_def)
  obtain cum' where c: "set_nnum_cum capacity info = Some (info\<lparr>nnum_cum := cum'\<rparr>)"
    "length cum' = 16" "cum' ! (D + 2) = node_capacity capacity info"
    using set_nnum_cum_result[OF d0, of capacity] lens D unfolding D_def by auto
  define info1 where "info1 = info\<lparr>nnum_cum := cum'\<rparr>"
  have tot: "total_nnum_capacity info1 = Some (node_capacity capacity info)"
    using c(2,3) d0 D
    by (simp add: total_nnum_capacity_def info1_def iget_def vget_def D_def nat_add_distrib)
  have loc: "locations_of info1 (push_bit K 1)
      = (if has_property info (push_bit K 1) then locations info ! K else 0)" if "K < kPTypeNum" for K
    using property_index_bit[OF that] by (simp add: locations_of_def info1_def has_property_def)
  have num: "prop_num info1 K = Some (if has_property info (push_bit K 1)
       then (if locations info ! K = - 1 then node_capacity capacity info
             else nnum info ! nat (sint (locations info ! K)))
       else nnum info ! 0)" if "K < kPTypeNum" for K
  proof (cases "has_property info (push_bit K 1)")
    case True
    then have "locations info ! K = - 1
        \<or> (0 \<le> sint (locations info ! K) \<and> sint (locations info ! K) < 16)"
      using valid that by (simp add: locations_valid_def list_all_iff)
    then show ?thesis using True loc[OF that] tot lens
      by (auto simp: prop_num_def nnum_at_def iget_def vget_def info1_def Let_def)
  next
    case False
    then show ?thesis using loc[OF that] lens
      by (simp add: prop_num_def nnum_at_def iget_def vget_def info1_def Let_def)
  qed
  let ?pd = "(ptr_dis info)[0 := sz]"
  have "kPTypeNum < length ?pd" "kPTypeNum \<le> length (channels info1)"
    "\<forall>K<kPTypeNum. prop_num info1 K \<noteq> None"
    using lens num by (simp_all add: kPTypeNum_def info1_def)
  from ptr_dis_loop[OF this] obtain pd' where p:
    "foldM (ptr_dis_step info1) [1..<Suc kPTypeNum] ?pd = Some pd'" "pd' ! 0 = ?pd ! 0"
    "\<forall>K<kPTypeNum. pd' ! (K + 1) = pd' ! K + 4 * the (prop_num info1 K) * channels info1 ! K"
    by blast
  have s2: "set_ptr_dis sz info1 = Some (info1\<lparr>ptr_dis := pd'\<rparr>)"
    using p(1) lens by (simp add: set_ptr_dis_def vset_def info1_def)
  have z: "pd' ! 0 = sz" using p(2) lens by simp
  have "pd' ! (K + 1) - pd' ! K = property_length capacity info K" if "K < kPTypeNum" for K
  proof -
    have e: "pd' ! (K + 1) - pd' ! K = 4 * the (prop_num info1 K) * channels info ! K"
      using p(3) that by (simp add: info1_def)
    show ?thesis
    proof (cases "has_property info (push_bit K 1)")
      case True
      then show ?thesis unfolding e num[OF that] by (simp add: property_length_def)
    next
      case False
      then have "channels info ! K = 0"
        using cons that by (simp add: flags_consistent_def list_all_iff)
      then show ?thesis unfolding e using False by (simp add: property_length_def)
    qed
  qed
  then show ?thesis using c(1) s2 z unfolding info1_def by auto
qed

theorem set_ptr_dis_offsets_witness:
  "info_arrays_ok info_example \<and> 0 \<le> sint (depth info_example) \<and> sint (depth info_example) \<le> 13
   \<and> locations_valid info_example \<and> flags_consistent info_example
   \<and> (\<exists>info1 info2. set_nnum_cum 0 info_example = Some info1 \<and> set_ptr_dis 352 info1 = Some info2
       \<and> ptr_dis info2 ! 0 = 352
       \<and> (\<forall>K<kPTypeNum. ptr_dis info2 ! (K + 1) - ptr_dis info2 ! K
                          = property_length 0 info_example K))
   \<and> map (property_length 0 info_example) [0..<6] = [36, 36, 0, 96, 0, 0]"
proof -
  have h: "info_arrays_ok info_example" "0 \<le> sint (depth info_example)"
    "sint (depth info_example) \<le> 13" "locations_valid info_example"
    "flags_consistent info_example"
    by (simp_all add: info_example_def info_arrays_ok_def kPTypeNum_def locations_valid_def
        flags_consistent_def has_property_def upt_rec)
  have v: "map (property_length 0 info_example) [0..<6] = [36, 36, 0, 96, 0, 0]"
    by code_simp
  show ?thesis using set_ptr_dis_offsets[OF h, of 0 352] h v by blast
qed

text \<open>
  C7 as stated fails when the capacity passed to \<open>set_nnum_cum\<close> exceeds the node
  count: with capacity 100 on the example header (9 nodes, Key with one channel
  stored for all layers) the Key range is 400 bytes long, not 36.
\<close>

theorem set_ptr_dis_capacity_counterexample:
  "map_option ptr_dis (Option.bind (set_nnum_cum 100 info_example) (set_ptr_dis 352))
     = Some [352, 752, 1152, 1152, 1248, 1248, 1248, 0]
   \<and> has_property info_example 1 \<and> locations info_example ! 0 = - 1
   \<and> (752 :: int32) - 352 \<noteq> 4 * channels info_example ! 0 * total_nnum_of info_example"
proof -
  have "map_option ptr_dis (Option.bind (set_nnum_cum 100 info_example) (set_ptr_dis 352))
     = Some [352, 752, 1152, 1152, 1248, 1248, 1248, 0]"
    by code_simp
  moreover have "has_property info_example 1" "locations info_example ! 0 = - 1"
    "(752 :: int32) - 352 \<noteq> 4 * channels info_example ! 0 * total_nnum_of info_example"
    by (simp_all add: has_property_def info_example_def total_nnum_of_def)
  ultimately show ?thesis by blast
qed

subsection \<open>The feature property\<close>

lemma concat_features_loop:
  assumes "n \<le> length no" "length di = length no" "length fe = length no"
    "length fp = length no" "length ro = length no"
  shows "\<exists>f. foldM (concat_features_step di fe fp ro) [0..<n] no = Some f \<and> length f = length no
     \<and> (\<forall>d<n. f ! d = no ! d @ di ! d @ fe ! d @ fp ! d @ ro ! d) \<and> (\<forall>d\<ge>n. f ! d = no ! d)"
  using assms
proof (induction n)
  case 0 then show ?case by simp
next
  case (Suc n)
  then obtain f where f: "foldM (concat_features_step di fe fp ro) [0..<n] no = Some f"
    "length f = length no" "\<forall>d<n. f ! d = no ! d @ di ! d @ fe ! d @ fp ! d @ ro ! d"
    "\<forall>d\<ge>n. f ! d = no ! d" by auto
  have n: "n < length no" using Suc.prems by simp
  have step: "concat_features_step di fe fp ro n f
      = Some (f[n := no ! n @ di ! n @ fe ! n @ fp ! n @ ro ! n])"
    using n f(2,4) Suc.prems by (simp add: concat_features_step_def vget_def vset_def)
  have "foldM (concat_features_step di fe fp ro) [0..<Suc n] no
        = Some (f[n := no ! n @ di ! n @ fe ! n @ fp ! n @ ro ! n])"
    using f(1) step by (simp add: foldM_append)
  then show ?case using f(2,3,4) n by (auto simp: nth_list_update less_Suc_eq)
qed

lemma serialize_all_layers:
  "n \<le> length src \<Longrightarrow>
   foldM (\<lambda>d des. do { s \<leftarrow> vget src d; Some (des @ s) }) [0..<n] [] = Some (concat (take n src))"
proof (induction n)
  case 0 then show ?case by simp
next
  case (Suc n)
  then show ?case by (simp add: foldM_append vget_def take_Suc_conv_app_nth)
qed

lemma serialize_features_ok:
  assumes "0 \<le> sint depth'" "length no = nat (sint depth') + 1" "length di = length no"
    "length fe = length no" "length fp = length no" "length ro = length no"
  shows "\<exists>f. serialize_features depth' no di fe fp ro = Some f \<and> length f = length no
     \<and> (\<forall>d\<le>nat (sint depth'). f ! d = no ! d @ di ! d @ fe ! d @ fp ! d @ ro ! d)
     \<and> serialize_vec depth' f (- 1) = Some (concat f)
     \<and> serialize_vec depth' f depth' = Some (f ! nat (sint depth'))"
proof -
  have n: "nat (sint depth' + 1) = length no" using assms(1,2) by simp
  obtain f where f: "foldM (concat_features_step di fe fp ro) [0..<length no] no = Some f"
    "length f = length no" "\<forall>d<length no. f ! d = no ! d @ di ! d @ fe ! d @ fp ! d @ ro ! d"
    using concat_features_loop[OF order_refl assms(3-6)] by blast
  have a: "serialize_vec depth' f (- 1) = Some (concat f)"
    using serialize_all_layers[of "length no" f] f(2) by (simp add: serialize_vec_def n)
  have b: "serialize_vec depth' f depth' = Some (f ! nat (sint depth'))"
  proof (cases "depth' = - 1")
    case True then show ?thesis using assms(1) by simp
  next
    case False
    then show ?thesis using assms(1,2) f(2) by (simp add: serialize_vec_def iget_def vget_def)
  qed
  show ?thesis using f a b assms(2) by (auto simp: serialize_features_def n)
qed

text \<open>
  C8. \<open>serialize\<close> builds, for every layer \<open>d\<close>, the feature payload
  \<open>avg_normals[d] @ displacement[d] @ avg_features[d] @ avg_fpfh[d] @ avg_roughness[d]\<close>
  and writes these payloads (all layers in order, or the one stored layer); and the
  Feature channel count that \<open>initialize\<close> stores is the sum of the normal, feature,
  fpfh and roughness channel counts of the points, plus 1 with displacement. The
  signal vectors hold one entry per layer, the channel counts do not add up to a
  negative \<open>int\<close>, and the Label and Feature enumerators name different table
  entries.
\<close>

theorem feature_payload_and_channel:
  assumes "0 \<le> sint depth'" "length no = nat (sint depth') + 1" "length di = length no"
    "length fe = length no" "length fp = length no" "length ro = length no"
    and "property_index (kLabel P) \<noteq> property_index (kFeature P)"
    and "length (channels info) = kPTypeNum"
    and "0 \<le> sint (feature_channel nd pc)"
  shows "(\<exists>f. serialize_features depth' no di fe fp ro = Some f \<and> length f = length no
           \<and> (\<forall>d\<le>nat (sint depth'). f ! d = no ! d @ di ! d @ fe ! d @ fp ! d @ ro ! d)
           \<and> serialize_vec depth' f (- 1) = Some (concat f)
           \<and> serialize_vec depth' f depth' = Some (f ! nat (sint depth')))
       \<and> channels (initialize P dp fd nd nf sl ad adp td tn k2 pc info) ! property_index (kFeature P)
           = pc PtsInfo_kNormal + pc PtsInfo_kFeature + pc PtsInfo_KFPFH + pc PtsInfo_KRoughness
             + (if nd then 1 else 0)"
proof -
  have "feature_channel nd pc
      = pc PtsInfo_kNormal + pc PtsInfo_kFeature + pc PtsInfo_KFPFH + pc PtsInfo_KRoughness
        + (if nd then 1 else 0)"
    by (simp add: feature_channel_def)
  moreover have "(if sint (feature_channel nd pc) > 0 then feature_channel nd pc else 0)
      = feature_channel nd pc"
  proof (cases "sint (feature_channel nd pc) = 0")
    case True
    then have "sint (feature_channel nd pc) = sint (0 :: int32)" by simp
    then have "feature_channel nd pc = 0" by (rule signed_word_eqI)
    then show ?thesis by simp
  next
    case False
    then show ?thesis using assms(9) by simp
  qed
  ultimately show ?thesis
    using serialize_features_ok[OF assms(1-6)] initialize_feature[OF assms(7,8)]
    by simp
qed

theorem feature_payload_and_channel_witness:
  "serialize_features 1 [[1::nat], [2, 3]] [[4], [5]] [[], [6]] [[7], []] [[8], [9]]
     = Some [[1, 4, 7, 8], [2, 3, 5, 6, 9]]
   \<and> property_index (kLabel prop_types_example) \<noteq> property_index (kFeature prop_types_example)
   \<and> channels (initialize prop_types_example 1 1 True False False False 1 0 0 False
        (\<lambda>k. if k = PtsInfo_kNormal then 3 else 0) info_example)
      ! property_index (kFeature prop_types_example) = 4"
proof -
  let ?pc = "\<lambda>k. if k = PtsInfo_kNormal then (3 :: int32) else 0"
  have h: "0 \<le> sint (1 :: int32)" "length [[1::nat], [2, 3]] = nat (sint (1 :: int32)) + 1"
    "length [[4::nat], [5]] = length [[1::nat], [2, 3]]"
    "length [[]::nat list, [6]] = length [[1::nat], [2, 3]]"
    "length [[7::nat], []] = length [[1::nat], [2, 3]]"
    "length [[8::nat], [9]] = length [[1::nat], [2, 3]]"
    by simp_all
  have p: "property_index (kLabel prop_types_example) \<noteq> property_index (kFeature prop_types_example)"
    by (simp add: prop_types_example_def property_index_def kPTypeNum_def upt_rec)
  have l: "length (channels info_example) = kPTypeNum"
    by (simp add: info_example_def kPTypeNum_def)
  have c: "0 \<le> sint (feature_channel True ?pc)"
    by (simp add: feature_channel_def)
  have s: "serialize_features 1 [[1::nat], [2, 3]] [[4], [5]] [[], [6]] [[7], []] [[8], [9]]
     = Some [[1, 4, 7, 8], [2, 3, 5, 6, 9]]"
    by (simp add: serialize_features_def concat_features_step_def vget_def vset_def upt_rec)
  from feature_payload_and_channel[OF h p l c, of 1 1 False False False 1 0 0 False]
  have "channels (initialize prop_types_example 1 1 True False False False 1 0 0 False ?pc
        info_example) ! property_index (kFeature prop_types_example) = 4"
    by simp
  with s p show ?thesis by blast
qed

section \<open>Properties of build_structure\<close>

lemma fold_update_all:
  "length xs = n \<Longrightarrow> m \<le> n \<Longrightarrow>
   fold (\<lambda>i xs. xs[i := f i]) [0..<m] xs = map f [0..<m] @ drop m xs"
proof (induction m)
  case 0 then show ?case by simp
next
  case (Suc m)
  then have "fold (\<lambda>i xs. xs[i := f i]) [0..<Suc m] xs = (map f [0..<m] @ drop m xs)[m := f m]"
    by simp
  also have "\<dots> = map f [0..<m] @ (drop m xs)[0 := f m]"
    by (simp add: list_update_append)
  also have "(drop m xs)[0 := f m] = f m # drop (Suc m) xs"
    using Suc.prems by (cases "drop m xs") (auto simp: drop_Suc tl_drop dest: arg_cong[where f=tl])
  finally show ?case by simp
qed

lemma fold_update_map:
  "length xs = n \<Longrightarrow> fold (\<lambda>i xs. xs[i := f i]) [0..<n] xs = map f [0..<n]"
  using fold_update_all[of xs n n f] by simp

text \<open>The trace of a loop of checked writes: an entry changes only by a write.\<close>

lemma foldM_writes:
  assumes "foldM (\<lambda>i xs. case f i of None \<Rightarrow> None | Some (s, v) \<Rightarrow> vset xs s v) js xs = Some ys"
  shows "length ys = length xs
     \<and> (\<forall>i\<in>set js. \<exists>s v. f i = Some (s, v) \<and> s < length xs)
     \<and> (\<forall>s<length xs. ys ! s \<noteq> xs ! s \<longrightarrow> (\<exists>i\<in>set js. f i = Some (s, ys ! s)))"
  using assms
proof (induction js arbitrary: xs)
  case Nil then show ?case by simp
next
  case (Cons j js)
  from Cons.prems obtain s v where f: "f j = Some (s, v)" and s: "s < length xs"
    and r: "foldM (\<lambda>i xs. case f i of None \<Rightarrow> None | Some (s, v) \<Rightarrow> vset xs s v) js (xs[s := v]) = Some ys"
    by (auto simp: vset_def split: option.splits if_splits prod.splits)
  from Cons.IH[OF r] have ih: "length ys = length xs"
    "\<forall>i\<in>set js. \<exists>s v. f i = Some (s, v) \<and> s < length xs"
    "\<forall>t<length xs. ys ! t \<noteq> (xs[s := v]) ! t \<longrightarrow> (\<exists>i\<in>set js. f i = Some (t, ys ! t))"
    by auto
  have "\<exists>i\<in>set (j # js). f i = Some (t, ys ! t)" if t: "t < length xs" "ys ! t \<noteq> xs ! t" for t
  proof (cases "ys ! t = (xs[s := v]) ! t")
    case True
    then have "t = s" "ys ! t = v" using t s by (auto simp: nth_list_update split: if_splits)
    then show ?thesis using f by simp
  next
    case False
    then show ?thesis using ih(3) t by auto
  qed
  then show ?case using ih(1,2) f s by auto
qed

lemma foldM_written:
  assumes "foldM (\<lambda>i xs. case f i of None \<Rightarrow> None | Some (s, v) \<Rightarrow> vset xs s v) js xs = Some ys"
  shows "\<forall>i\<in>set js. \<forall>s v. f i = Some (s, v) \<longrightarrow> (\<exists>i'\<in>set js. f i' = Some (s, ys ! s))"
  using assms
proof (induction js arbitrary: xs)
  case Nil then show ?case by simp
next
  case (Cons j js)
  from Cons.prems obtain s v where f: "f j = Some (s, v)" and s: "s < length xs"
    and r: "foldM (\<lambda>i xs. case f i of None \<Rightarrow> None | Some (s, v) \<Rightarrow> vset xs s v) js (xs[s := v]) = Some ys"
    by (auto simp: vset_def split: option.splits if_splits prod.splits)
  note w = foldM_writes[OF r]
  have hd: "\<exists>i'\<in>set (j # js). f i' = Some (s, ys ! s)"
  proof (cases "ys ! s = (xs[s := v]) ! s")
    case True then show ?thesis using f s by simp
  next
    case False
    then show ?thesis using w s by auto
  qed
  show ?case using Cons.IH[OF r] hd f by auto
qed

lemma interval_cover:
  "sorted_wrt (<) (xs :: nat list) \<Longrightarrow> xs \<noteq> [] \<Longrightarrow> hd xs \<le> i \<Longrightarrow> i < last xs \<Longrightarrow>
   \<exists>r. r + 1 < length xs \<and> xs ! r \<le> i \<and> i < xs ! (r + 1)"
proof (induction xs)
  case Nil then show ?case by simp
next
  case (Cons x ys)
  show ?case
  proof (cases "ys = []")
    case True then show ?thesis using Cons.prems by simp
  next
    case False
    show ?thesis
    proof (cases "i < hd ys")
      case True
      then have "0 + 1 < length (x # ys) \<and> (x # ys) ! 0 \<le> i \<and> i < (x # ys) ! (0 + 1)"
        using Cons.prems False by (simp add: hd_conv_nth)
      then show ?thesis by blast
    next
      case F: False
      then obtain r where "r + 1 < length ys" "ys ! r \<le> i" "i < ys ! (r + 1)"
        using Cons.IH Cons.prems False by auto
      then have "Suc r + 1 < length (x # ys) \<and> (x # ys) ! Suc r \<le> i \<and> i < (x # ys) ! (Suc r + 1)"
        by simp
      then show ?thesis by blast
    qed
  qed
qed

lemma seven_mask: "(7 :: uint32) = mask 3"
  by (simp add: mask_eq_exp_minus_1)

lemma word_split3: "push_bit 3 (drop_bit 3 (k :: uint32)) OR (k AND 7) = k"
  unfolding seven_mask
  by (rule bit_word_eqI) (auto simp: bit_simps)

lemma word_join3:
  "drop_bit 3 (push_bit 3 (drop_bit 3 (u :: uint32)) OR (w AND 7)) = drop_bit 3 u"
  unfolding seven_mask
  by (rule bit_word_eqI) (auto simp: bit_simps dest: bit_imp_le_length)

lemma unat_low3: "unat ((k :: uint32) AND 7) = unat k mod 8" "unat ((k :: uint32) AND 7) < 8"
proof -
  have "unat (k AND mask 3) = take_bit 3 (unat k)"
    by (simp add: unsigned_take_bit_eq flip: take_bit_eq_mask)
  then show "unat (k AND 7) = unat k mod 8" by (simp add: seven_mask take_bit_eq_mod)
  then show "unat (k AND 7) < 8" by simp
qed

lemma unat_shl3:
  assumes "8 * r < 2 ^ 31"
  shows "unat (push_bit 3 (word_of_nat r :: uint32)) = 8 * r"
proof -
  have "r < 2 ^ 32" "8 * r < 2 ^ 32" using assms by auto
  have "unat (push_bit 3 (word_of_nat r :: uint32)) = take_bit 32 (push_bit 3 (unat (word_of_nat r :: uint32)))"
    by (simp only: unsigned_push_bit_eq) simp
  also have "unat (word_of_nat r :: uint32) = r" using \<open>r < 2 ^ 32\<close> by (simp add: unat_of_nat)
  also have "take_bit 32 (push_bit 3 r) = 8 * r"
    using \<open>8 * r < 2 ^ 32\<close> by (simp add: take_bit_eq_mod push_bit_eq_mult mult.commute)
  finally show ?thesis .
qed

lemma unat_slot:
  assumes "8 * r < 2 ^ 31"
  shows "unat (((k :: uint32) AND 7) OR push_bit 3 (word_of_nat r)) = 8 * r + unat k mod 8"
proof -
  have "unat ((k AND 7) OR push_bit 3 (word_of_nat r)) = (unat k mod 8) OR (8 * r)"
    by (simp add: unsigned_or_eq unat_low3 unat_shl3[OF assms])
  also have "unat k mod 8 = take_bit 3 (unat k)" by (simp add: take_bit_eq_mod)
  also have "8 * r = push_bit 3 r" by (simp add: push_bit_eq_mult)
  also have "take_bit 3 (unat k) OR push_bit 3 r = take_bit 3 (unat k) + push_bit 3 r"
    by (rule disjunctive_add_eq_or[symmetric], rule bit_eqI) (auto simp: bit_simps)
  finally show ?thesis by (simp add: take_bit_eq_mod push_bit_eq_mult)
qed

lemma strict_nth_less_iff:
  assumes "sorted_wrt (<) (xs :: nat list)" "a < length xs" "b < length xs"
  shows "xs ! a < xs ! b \<longleftrightarrow> a < b"
proof
  assume "xs ! a < xs ! b"
  show "a < b"
  proof (rule ccontr)
    assume "\<not> a < b"
    then have "b = a \<or> b < a" by auto
    then have "xs ! b \<le> xs ! a"
      using assms sorted_wrt_nth_less[OF assms(1), of b a] by auto
    then show False using \<open>xs ! a < xs ! b\<close> by simp
  qed
next
  assume "a < b" then show "xs ! a < xs ! b"
    using assms sorted_wrt_nth_less by blast
qed

lemma no_start_between:
  assumes xs: "xs = 0 # filter P [1..<n] @ [n]" and n: "1 \<le> n"
    and r: "r + 1 < length xs" and j: "xs ! r < j" "j < xs ! (r + 1)"
  shows "\<not> P j"
proof
  assume P: "P j"
  have srt: "sorted_wrt (<) xs" unfolding xs using n by (rule strict_idx)
  have "xs ! (r + 1) \<le> n"
  proof -
    have "xs ! (r + 1) \<in> set xs" using r by simp
    then show ?thesis unfolding xs by auto
  qed
  then have "j \<in> set (filter P [1..<n])" using P j by auto
  then have "j \<in> set xs" unfolding xs by simp
  then obtain m where m: "m < length xs" "xs ! m = j" by (auto simp: in_set_conv_nth)
  have "r < m" using strict_nth_less_iff[OF srt _ m(1), of r] j(1) m(2) r by simp
  moreover have "m < r + 1" using strict_nth_less_iff[OF srt m(1), of "r + 1"] j(2) m(2) r by simp
  ultimately show False by simp
qed

lemma run_const:
  assumes "\<forall>j. lo < j \<and> j \<le> i \<longrightarrow> \<not> run_start pk j" "lo \<le> i"
  shows "pk ! i = pk ! lo"
  using assms
proof (induction i)
  case 0 then show ?case by simp
next
  case (Suc i)
  show ?case
  proof (cases "lo = Suc i")
    case True then show ?thesis by simp
  next
    case False
    then have "lo \<le> i" using Suc.prems by simp
    moreover have "\<not> run_start pk (Suc i)" using Suc.prems False by simp
    ultimately show ?thesis using Suc by (simp add: run_start_def)
  qed
qed

lemma unique_key_facts:
  fixes pk :: "uint32 list"
  defines "U \<equiv> fst (unique_key pk)" and "pidx \<equiv> snd (unique_key pk)"
  shows "length pidx = length U + 1"
    and "sorted pidx"
    and "pidx ! 0 = 0" and "pidx ! length U = length pk"
    and "\<And>r i. r < length U \<Longrightarrow> pidx ! r \<le> i \<Longrightarrow> i < pidx ! (r + 1) \<Longrightarrow> pk ! i = U ! r"
    and "\<And>i. i < length pk \<Longrightarrow> \<exists>r<length U. pidx ! r \<le> i \<and> i < pidx ! (r + 1)"
    and "\<And>u. u \<in> set U \<Longrightarrow> u = 0 \<or> u \<in> set pk"
proof -
  have "length pidx = length U + 1 \<and> sorted pidx \<and> pidx ! 0 = 0 \<and> pidx ! length U = length pk
      \<and> (\<forall>r i. r < length U \<longrightarrow> pidx ! r \<le> i \<longrightarrow> i < pidx ! (r + 1) \<longrightarrow> pk ! i = U ! r)
      \<and> (\<forall>i<length pk. \<exists>r<length U. pidx ! r \<le> i \<and> i < pidx ! (r + 1))
      \<and> (\<forall>u\<in>set U. u = 0 \<or> u \<in> set pk)"
  proof (cases "pk = []")
    case True
    then have "U = [0]" "pidx = [0, 0]"
      by (simp_all add: U_def pidx_def unique_key_def unique_step_def resize_def)
    then show ?thesis using True by simp
  next
    case False
    define n where "n = length pk"
    define starts where "starts = 0 # filter (run_start pk) [1..<n]"
    have n: "1 \<le> n" using False by (cases pk) (auto simp: n_def)
    have p: "pidx = starts @ [n]" and u: "U = map (\<lambda>i. pk ! i) starts"
      using unique_key_idx[of pk] n by (simp_all add: pidx_def U_def starts_def n_def)
    have px: "pidx = 0 # filter (run_start pk) [1..<n] @ [n]" by (simp add: p starts_def)
    have strict: "sorted_wrt (<) pidx" unfolding px using n by (rule strict_idx)
    have len: "length pidx = length U + 1" by (simp add: p u)
    have s: "sorted pidx" using strict by (rule sorted_wrt_mono_rel[rotated]) simp
    have z: "pidx ! 0 = 0" by (simp add: px)
    have l: "pidx ! length U = n" by (simp add: p u nth_append)
    have c: "pk ! i = U ! r" if r: "r < length U" and i: "pidx ! r \<le> i" "i < pidx ! (r + 1)" for r i
    proof -
      have "\<forall>j. pidx ! r < j \<and> j \<le> i \<longrightarrow> \<not> run_start pk j"
        using no_start_between[OF px n, of r] r len i(2) by auto
      from run_const[OF this i(1)] have "pk ! i = pk ! (pidx ! r)" .
      also have "\<dots> = U ! r" using r by (simp add: u p nth_append)
      finally show ?thesis .
    qed
    have cov: "\<exists>r<length U. pidx ! r \<le> i \<and> i < pidx ! (r + 1)" if "i < length pk" for i
    proof -
      have "pidx \<noteq> []" "hd pidx \<le> i" "i < last pidx" using that by (simp_all add: px n_def)
      from interval_cover[OF strict this] show ?thesis using len by auto
    qed
    have inset: "u = 0 \<or> u \<in> set pk" if "u \<in> set U" for u
    proof -
      from that obtain i where "i \<in> set starts" "u = pk ! i" by (auto simp: u)
      moreover have "i < n" using \<open>i \<in> set starts\<close> n by (auto simp: starts_def)
      ultimately show ?thesis by (simp add: n_def)
    qed
    show ?thesis using len s z l c cov inset by (simp add: n_def)
  qed
  then show "length pidx = length U + 1" "sorted pidx" "pidx ! 0 = 0" "pidx ! length U = length pk"
    "\<And>r i. r < length U \<Longrightarrow> pidx ! r \<le> i \<Longrightarrow> i < pidx ! (r + 1) \<Longrightarrow> pk ! i = U ! r"
    "\<And>i. i < length pk \<Longrightarrow> \<exists>r<length U. pidx ! r \<le> i \<and> i < pidx ! (r + 1)"
    "\<And>u. u \<in> set U \<Longrightarrow> u = 0 \<or> u \<in> set pk"
    by blast+
qed

lemma fill_loop:
  "foldM (\<lambda>j a. vset a j v) [lo..<hi] a = Some a' \<Longrightarrow>
   length a' = length a \<and> (\<forall>j. lo \<le> j \<and> j < hi \<longrightarrow> j < length a \<and> a' ! j = v)
   \<and> (\<forall>j. j < lo \<or> hi \<le> j \<longrightarrow> a' ! j = a ! j)"
proof (induction hi arbitrary: a')
  case 0 then show ?case by simp
next
  case (Suc hi)
  show ?case
  proof (cases "lo \<le> hi")
    case False
    then show ?thesis using Suc.prems by auto
  next
    case True
    then have up: "[lo..<Suc hi] = [lo..<hi] @ [hi]" by simp
    from Suc.prems obtain b where b: "foldM (\<lambda>j a. vset a j v) [lo..<hi] a = Some b"
      and w: "vset b hi v = Some a'"
      unfolding up foldM_append by (auto split: option.splits)
    from Suc.IH[OF b] have ih: "length b = length a"
      "\<forall>j. lo \<le> j \<and> j < hi \<longrightarrow> j < length a \<and> b ! j = v"
      "\<forall>j. j < lo \<or> hi \<le> j \<longrightarrow> b ! j = a ! j" by auto
    from w have a': "hi < length b" "a' = b[hi := v]" by (auto simp: vset_def split: if_splits)
    show ?thesis using ih a' True by (auto simp: nth_list_update less_Suc_eq)
  qed
qed

lemma addr_loop:
  assumes "foldM (addr_step pidx) [0..<m] addr0 = Some addr" "sorted pidx" "m < length pidx"
  shows "length addr = length addr0
     \<and> (\<forall>r<m. \<forall>j. pidx ! r \<le> j \<and> j < pidx ! (r + 1) \<longrightarrow>
            j < length addr0 \<and> addr ! j = push_bit 3 (word_of_nat r))
     \<and> (\<forall>j. pidx ! m \<le> j \<longrightarrow> addr ! j = addr0 ! j)"
  using assms
proof (induction m arbitrary: addr)
  case 0 then show ?case by simp
next
  case (Suc m)
  from Suc.prems(1) obtain b where b: "foldM (addr_step pidx) [0..<m] addr0 = Some b"
    and st: "addr_step pidx m b = Some addr"
    by (auto simp: foldM_append split: option.splits)
  from Suc.IH[OF b Suc.prems(2)] Suc.prems(3) have ih: "length b = length addr0"
    "\<forall>r<m. \<forall>j. pidx ! r \<le> j \<and> j < pidx ! (r + 1) \<longrightarrow>
            j < length addr0 \<and> b ! j = push_bit 3 (word_of_nat r)"
    "\<forall>j. pidx ! m \<le> j \<longrightarrow> b ! j = addr0 ! j" by auto
  from st Suc.prems(3) have
    f: "foldM (\<lambda>j a. vset a j (push_bit 3 (word_of_nat m))) [pidx ! m..<pidx ! (m + 1)] b = Some addr"
    by (simp add: addr_step_def vget_def)
  from fill_loop[OF f] have fl: "length addr = length b"
    "\<forall>j. pidx ! m \<le> j \<and> j < pidx ! (m + 1) \<longrightarrow> j < length b \<and> addr ! j = push_bit 3 (word_of_nat m)"
    "\<forall>j. j < pidx ! m \<or> pidx ! (m + 1) \<le> j \<longrightarrow> addr ! j = b ! j" by auto
  have mono: "pidx ! (r + 1) \<le> pidx ! m" if "r < m" for r
    using Suc.prems(2,3) that by (intro sorted_nth_mono) auto
  have mono2: "pidx ! m \<le> pidx ! (m + 1)"
    using Suc.prems(2,3) by (intro sorted_nth_mono) auto
  have "\<forall>r<Suc m. \<forall>j. pidx ! r \<le> j \<and> j < pidx ! (r + 1) \<longrightarrow>
            j < length addr0 \<and> addr ! j = push_bit 3 (word_of_nat r)"
  proof (intro allI impI)
    fix r j assume r: "r < Suc m" and j: "pidx ! r \<le> j \<and> j < pidx ! (r + 1)"
    show "j < length addr0 \<and> addr ! j = push_bit 3 (word_of_nat r)"
    proof (cases "r = m")
      case True then show ?thesis using fl(2) j ih(1) by simp
    next
      case False
      then have rm: "r < m" using r by simp
      then have "j < pidx ! m" using mono[OF rm] j by simp
      then have "addr ! j = b ! j" using fl(3) by simp
      then show ?thesis using ih(2) rm j by simp
    qed
  qed
  moreover have "\<forall>j. pidx ! (Suc m) \<le> j \<longrightarrow> addr ! j = addr0 ! j"
    using fl(3) ih(3) mono2 by auto
  ultimately show ?case using fl(1) ih(1) by simp
qed

lemma child_step_shape:
  "child_step K addr = (\<lambda>i xs. case child_slot K addr i of None \<Rightarrow> None | Some (s, v) \<Rightarrow> vset xs s v)"
  by (intro ext) (simp add: child_step_def child_slot_def Let_def split: option.splits)

lemma low3_of_nat: "word_of_nat (unat (k :: uint32) mod 8) = k AND 7"
proof -
  have "word_of_nat (unat (k AND 7)) = k AND 7" by simp
  then show ?thesis by (simp add: unat_low3(1))
qed

lemma layer_step_result:
  assumes st: "layer_step d (ks, ch, K) = Some (ks', ch', K')" and empty: "ch ! d = []"
  shows "K' = parents K" "d < length ks" "d < length ch" "length ks' = length ks"
    "length ch' = length ch" "\<forall>e. e \<noteq> d \<longrightarrow> ks' ! e = ks ! e \<and> ch' ! e = ch ! e"
    "blocks K' (ks' ! d)" "traces K (ks' ! d) (ch' ! d)" "8 * length K' < 2 ^ 31"
proof -
  define pk where "pk = map (\<lambda>k. drop_bit 3 k) K"
  define U where "U = fst (unique_key pk)"
  define pidx where "pidx = snd (unique_key pk)"
  define nch where "nch = 8 * length U"
  define kd where "kd = map (\<lambda>i. push_bit 3 (U ! (i div 8)) OR word_of_nat (i mod 8)) [0..<nch]"
  have uk: "unique_key pk = (U, pidx)" by (simp add: U_def pidx_def)
  have kfold: "fold (\<lambda>i keys. keys[i := push_bit 3 (U ! (i div 8)) OR word_of_nat (i mod 8)])
                 [0..<nch] (resize nch 0 (ks ! d)) = kd"
    unfolding kd_def by (rule fold_update_map) (simp add: resize_def)
  have rz: "resize nch (- 1) (ch ! d) = replicate nch (- 1)" by (simp add: empty resize_def)
  have g: "(length U < 268435456) = (nch < 2147483648)" by (auto simp: nch_def)
  have eq: "layer_step d (ks, ch, K) =
     (if nch < 2 ^ 31 \<and> d < length ch \<and> d < length ks
      then (case foldM (addr_step pidx) [0..<length U] (replicate nch 0) of None \<Rightarrow> None
            | Some addr \<Rightarrow>
               (case foldM (child_step K addr) [0..<length K] (replicate nch (- 1)) of None \<Rightarrow> None
                | Some cd \<Rightarrow> Some (ks[d := kd], ch[d := cd], U)))
      else None)"
    by (simp add: layer_step_def Let_def uk pk_def[symmetric] nch_def[symmetric] kfold rz g
          vget_def vset_def split: option.splits)
  from st[unfolded eq] obtain addr cd where
    fits0: "nch < 2 ^ 31" and d: "d < length ks" "d < length ch"
    and addr: "foldM (addr_step pidx) [0..<length U] (replicate nch 0) = Some addr"
    and cd: "foldM (child_step K addr) [0..<length K] (replicate nch (- 1)) = Some cd"
    and res: "ks' = ks[d := kd]" "ch' = ch[d := cd]" "K' = U"
    by (auto split: if_splits option.splits)
  have fits: "8 * length U < 2 ^ 31" using fits0 by (simp add: nch_def)
  show "K' = parents K" by (simp add: res parents_def U_def pk_def)
  show "d < length ks" "d < length ch" by fact+
  show "length ks' = length ks" "length ch' = length ch" by (simp_all add: res)
  show "\<forall>e. e \<noteq> d \<longrightarrow> ks' ! e = ks ! e \<and> ch' ! e = ch ! e" by (simp add: res)
  show "8 * length K' < 2 ^ 31" using fits res by simp
  have kdn: "ks' ! d = kd" "ch' ! d = cd" using d by (simp_all add: res)
  show "blocks K' (ks' ! d)"
    unfolding blocks_def kdn res(3)
    by (auto simp: kd_def nch_def)
  note F = unique_key_facts[where pk = pk, folded U_def pidx_def]
  from addr_loop[OF addr F(2)] F(1) have A: "length addr = nch"
    "\<forall>r<length U. \<forall>j. pidx ! r \<le> j \<and> j < pidx ! (r + 1) \<longrightarrow>
         j < nch \<and> addr ! j = push_bit 3 (word_of_nat r)" by auto
  from foldM_writes[OF cd[unfolded child_step_shape]] have C: "length cd = nch"
    "\<forall>i<length K. \<exists>s v. child_slot K addr i = Some (s, v) \<and> s < nch"
    "\<forall>s<nch. cd ! s \<noteq> - 1 \<longrightarrow> (\<exists>i<length K. child_slot K addr i = Some (s, cd ! s))"
    by (auto simp: Bex_def)
  from foldM_written[OF cd[unfolded child_step_shape]] have W:
    "\<forall>i<length K. \<forall>s v. child_slot K addr i = Some (s, v) \<longrightarrow>
        (\<exists>i'<length K. child_slot K addr i' = Some (s, cd ! s))"
    by (auto simp: Bex_def)
  have keyat: "v = int i \<and> kd ! s = K ! i"
    if i: "i < length K" "child_slot K addr i = Some (s, v)" and s: "s < nch" for i s v
  proof -
    from i have ia: "i < length addr" "s = unat ((K ! i AND 7) OR addr ! i)" "v = int i"
      by (auto simp: child_slot_def vget_def split: if_splits)
    from F(6)[of i] i(1) obtain r where r: "r < length U" "pidx ! r \<le> i" "i < pidx ! (r + 1)"
      by (auto simp: pk_def)
    have ai: "addr ! i = push_bit 3 (word_of_nat r)" using A(2) r by auto
    have r8: "8 * r < 2 ^ 31" using r(1) fits by simp
    have sv: "s = 8 * r + unat (K ! i) mod 8" unfolding ia(2) ai by (rule unat_slot[OF r8])
    then have dm: "s div 8 = r" "s mod 8 = unat (K ! i) mod 8" by auto
    have Ur: "U ! r = drop_bit 3 (K ! i)" using F(5)[OF r] i(1) by (simp add: pk_def)
    have "kd ! s = push_bit 3 (U ! (s div 8)) OR word_of_nat (s mod 8)"
      using s by (simp add: kd_def)
    also have "\<dots> = push_bit 3 (drop_bit 3 (K ! i)) OR (K ! i AND 7)"
      by (simp add: dm Ur low3_of_nat)
    also have "\<dots> = K ! i" by (rule word_split3)
    finally show ?thesis using ia(3) by simp
  qed
  have t1: "\<exists>i<length K. cd ! s = int i \<and> kd ! s = K ! i" if s: "s < nch" "cd ! s \<noteq> - 1" for s
  proof -
    from C(3) s obtain i where i: "i < length K" "child_slot K addr i = Some (s, cd ! s)" by auto
    from keyat[OF i s(1)] i(1) show ?thesis by auto
  qed
  have t2: "\<exists>s<nch. cd ! s \<noteq> - 1 \<and> kd ! s = K ! i" if i: "i < length K" for i
  proof -
    from C(2) i obtain s v where sv: "child_slot K addr i = Some (s, v)" "s < nch" by blast
    from W i sv(1) obtain i' where i': "i' < length K" "child_slot K addr i' = Some (s, cd ! s)"
      by blast
    have "cd ! s = int i'" using keyat[OF i' sv(2)] by simp
    then have "cd ! s \<noteq> - 1" by simp
    then show ?thesis using keyat[OF i sv] sv(2) by blast
  qed
  have lk: "length kd = nch" by (simp add: kd_def)
  show "traces K (ks' ! d) (ch' ! d)"
    unfolding traces_def kdn using C(1) lk t1 t2 by simp
qed

lemma full_layer_step_result:
  assumes "full_layer_step fl d (ks, ch) = Some (ks', ch')"
    "d < length ks \<Longrightarrow> ks ! d = []" "d < length ch \<Longrightarrow> ch ! d = []"
  shows "d < length ks" "d < length ch" "3 * d < 31"
    "ks' = ks[d := map word_of_nat [0..<8 ^ d]]"
    "ch' = ch[d := (if d \<noteq> fl then map int [0..<8 ^ d] else replicate (8 ^ d) (- 1))]"
proof -
  have p: "(2::nat) ^ (3 * d) = 8 ^ d" by (simp add: power_mult)
  have k: "fold (\<lambda>i keys. keys[i := word_of_nat i]) [0..<8 ^ d] (replicate (8 ^ d) (- 1 :: uint32))
      = map word_of_nat [0..<8 ^ d]"
    by (rule fold_update_map) simp
  have c: "fold (\<lambda>i children. children[i := int i]) [0..<8 ^ d] (replicate (8 ^ d) (- 1))
      = map int [0..<8 ^ d]"
    by (rule fold_update_map) simp
  from assms show "d < length ks" "d < length ch" "3 * d < 31"
    "ks' = ks[d := map word_of_nat [0..<8 ^ d]]"
    "ch' = ch[d := (if d \<noteq> fl then map int [0..<8 ^ d] else replicate (8 ^ d) (- 1))]"
    by (auto simp: full_layer_step_def vget_def vset_def resize_def Let_def p k c
        bind_eq_Some_conv split: if_splits)
qed

lemma full_layers_loop:
  assumes "foldM (full_layer_step fl) [0..<m] (ks0, ch0) = Some (ks, ch)"
    and "\<forall>d<m. (d < length ks0 \<longrightarrow> ks0 ! d = []) \<and> (d < length ch0 \<longrightarrow> ch0 ! d = [])"
  shows "length ks = length ks0 \<and> length ch = length ch0
     \<and> (\<forall>d<m. d < length ks0 \<and> d < length ch0 \<and> 3 * d < 31
            \<and> ks ! d = map word_of_nat [0..<8 ^ d]
            \<and> ch ! d = (if d \<noteq> fl then map int [0..<8 ^ d] else replicate (8 ^ d) (- 1)))
     \<and> (\<forall>d\<ge>m. ks ! d = ks0 ! d \<and> ch ! d = ch0 ! d)"
  using assms
proof (induction m arbitrary: ks ch)
  case 0 then show ?case by simp
next
  case (Suc m)
  from Suc.prems(1) obtain ks1 ch1 where
    a: "foldM (full_layer_step fl) [0..<m] (ks0, ch0) = Some (ks1, ch1)"
    and st: "full_layer_step fl m (ks1, ch1) = Some (ks, ch)"
    by (auto simp: foldM_append split: option.splits)
  from Suc.IH[OF a] Suc.prems(2) have ih: "length ks1 = length ks0" "length ch1 = length ch0"
    "\<forall>d<m. d < length ks0 \<and> d < length ch0 \<and> 3 * d < 31
            \<and> ks1 ! d = map word_of_nat [0..<8 ^ d]
            \<and> ch1 ! d = (if d \<noteq> fl then map int [0..<8 ^ d] else replicate (8 ^ d) (- 1))"
    "\<forall>d\<ge>m. ks1 ! d = ks0 ! d \<and> ch1 ! d = ch0 ! d" by auto
  have e: "m < length ks1 \<Longrightarrow> ks1 ! m = []" "m < length ch1 \<Longrightarrow> ch1 ! m = []"
    using ih(1,2,4) Suc.prems(2) by auto
  note r = full_layer_step_result[OF st e]
  show ?case using ih r by (auto simp: nth_list_update less_Suc_eq)
qed

lemma layers_loop:
  assumes "foldM layer_step (rev [a..<b]) (ks, ch, K) = Some (ks', ch', K')"
    and "\<forall>d. a \<le> d \<and> d < b \<longrightarrow> ch ! d = []"
  shows "length ks' = length ks \<and> length ch' = length ch \<and> K' = (parents ^^ (b - a)) K
     \<and> (\<forall>d. a \<le> d \<and> d < b \<longrightarrow> d < length ks \<and> d < length ch
            \<and> blocks ((parents ^^ (b - d)) K) (ks' ! d)
            \<and> traces ((parents ^^ (b - 1 - d)) K) (ks' ! d) (ch' ! d))
     \<and> (\<forall>d. d < a \<or> b \<le> d \<longrightarrow> ks' ! d = ks ! d \<and> ch' ! d = ch ! d)"
  using assms
proof (induction b arbitrary: ks ch K)
  case 0 then show ?case by simp
next
  case (Suc b)
  show ?case
  proof (cases "a \<le> b")
    case False
    then show ?thesis using Suc.prems by auto
  next
    case True
    then have up: "rev [a..<Suc b] = b # rev [a..<b]" by simp
    from Suc.prems(1) obtain ks1 ch1 K1 where
      st: "layer_step b (ks, ch, K) = Some (ks1, ch1, K1)"
      and rest: "foldM layer_step (rev [a..<b]) (ks1, ch1, K1) = Some (ks', ch', K')"
      unfolding up by (auto split: option.splits)
    have e: "ch ! b = []" using Suc.prems(2) True by simp
    note r = layer_step_result[OF st e]
    have e1: "\<forall>d. a \<le> d \<and> d < b \<longrightarrow> ch1 ! d = []" using r(6) Suc.prems(2) by auto
    from Suc.IH[OF rest e1] have ih: "length ks' = length ks1" "length ch' = length ch1"
      "K' = (parents ^^ (b - a)) K1"
      "\<forall>d. a \<le> d \<and> d < b \<longrightarrow> d < length ks1 \<and> d < length ch1
            \<and> blocks ((parents ^^ (b - d)) K1) (ks' ! d)
            \<and> traces ((parents ^^ (b - 1 - d)) K1) (ks' ! d) (ch' ! d)"
      "\<forall>d. d < a \<or> b \<le> d \<longrightarrow> ks' ! d = ks1 ! d \<and> ch' ! d = ch1 ! d" by auto
    have pw: "(parents ^^ n) K1 = (parents ^^ Suc n) K" for n
      by (simp add: r(1) funpow_swap1)
    have K': "K' = (parents ^^ (Suc b - a)) K" using ih(3) True by (simp add: pw Suc_diff_le)
    have lay: "d < length ks \<and> d < length ch
            \<and> blocks ((parents ^^ (Suc b - d)) K) (ks' ! d)
            \<and> traces ((parents ^^ (Suc b - 1 - d)) K) (ks' ! d) (ch' ! d)"
      if d: "a \<le> d" "d < Suc b" for d
    proof (cases "d = b")
      case True
      then have "ks' ! d = ks1 ! b" "ch' ! d = ch1 ! b" using ih(5) by auto
      then show ?thesis using r True by simp
    next
      case False
      then have db: "d < b" using d by simp
      from ih(4) d(1) db have B: "blocks ((parents ^^ (b - d)) K1) (ks' ! d)"
        "traces ((parents ^^ (b - 1 - d)) K1) (ks' ! d) (ch' ! d)"
        "d < length ks1" "d < length ch1" by auto
      have "Suc b - d = Suc (b - d)" "Suc b - 1 - d = Suc (b - 1 - d)" using db by auto
      then have "(parents ^^ (Suc b - d)) K = (parents ^^ (b - d)) K1"
        "(parents ^^ (Suc b - 1 - d)) K = (parents ^^ (b - 1 - d)) K1"
        by (simp_all only: pw)
      then show ?thesis using B r(4,5) by simp
    qed
    have out: "ks' ! d = ks ! d \<and> ch' ! d = ch ! d" if "d < a \<or> Suc b \<le> d" for d
      using ih(5) r(6) that True by auto
    show ?thesis using ih(1,2) r(4,5) K' lay out by simp
  qed
qed

lemma full_children_loop:
  assumes "foldM (full_children_step fl K) [0..<m] ch = Some ch'"
  shows "length ch' = length ch \<and> (\<forall>d. d \<noteq> fl \<longrightarrow> ch' ! d = ch ! d)
     \<and> length (ch' ! fl) = length (ch ! fl) \<and> (0 < m \<longrightarrow> fl < length ch)
     \<and> (\<forall>s<length (ch ! fl). ch' ! fl ! s \<noteq> ch ! fl ! s \<longrightarrow>
            (\<exists>i<m. s = unat (K ! i) \<and> ch' ! fl ! s = int i))
     \<and> (\<forall>i<m. unat (K ! i) < length (ch ! fl) \<and> ch' ! fl ! unat (K ! i) \<noteq> - 1)"
  using assms
proof (induction m arbitrary: ch')
  case 0 then show ?case by simp
next
  case (Suc m)
  from Suc.prems obtain c1 where a: "foldM (full_children_step fl K) [0..<m] ch = Some c1"
    and st: "full_children_step fl K m c1 = Some ch'"
    by (auto simp: foldM_append split: option.splits)
  from Suc.IH[OF a] have ih: "length c1 = length ch" "\<forall>d. d \<noteq> fl \<longrightarrow> c1 ! d = ch ! d"
    "length (c1 ! fl) = length (ch ! fl)"
    "\<forall>s<length (ch ! fl). c1 ! fl ! s \<noteq> ch ! fl ! s \<longrightarrow>
            (\<exists>i<m. s = unat (K ! i) \<and> c1 ! fl ! s = int i)"
    "\<forall>i<m. unat (K ! i) < length (ch ! fl) \<and> c1 ! fl ! unat (K ! i) \<noteq> - 1" by auto
  from st have s: "fl < length c1" "unat (K ! m) < length (c1 ! fl)"
    "ch' = c1[fl := (c1 ! fl)[unat (K ! m) := int m]]"
    by (auto simp: full_children_step_def Let_def vget_def vset_def bind_eq_Some_conv
        split: if_splits)
  have "\<exists>i<Suc m. t = unat (K ! i) \<and> ch' ! fl ! t = int i"
    if t: "t < length (ch ! fl)" "ch' ! fl ! t \<noteq> ch ! fl ! t" for t
  proof (cases "t = unat (K ! m)")
    case True
    then have "ch' ! fl ! t = int m" using s by simp
    then show ?thesis using True by auto
  next
    case False
    then have "ch' ! fl ! t = c1 ! fl ! t" using s by simp
    then show ?thesis using ih(4) t by (auto simp: less_Suc_eq)
  qed
  moreover have "unat (K ! i) < length (ch ! fl) \<and> ch' ! fl ! unat (K ! i) \<noteq> - 1"
    if i: "i < Suc m" for i
  proof (cases "unat (K ! i) = unat (K ! m)")
    case True
    then have "ch' ! fl ! unat (K ! i) = int m" using s by simp
    then show ?thesis using True s(2) ih(3) by simp
  next
    case False
    then have "i < m" using i by (cases "i = m") auto
    moreover have "ch' ! fl ! unat (K ! i) = c1 ! fl ! unat (K ! i)" using s False by simp
    ultimately show ?thesis using ih(5) by simp
  qed
  ultimately show ?case using ih(1,2,3) s by (auto simp: nth_list_update)
qed

lemma build_structure_result:
  assumes "build_structure D fl K = Some (ks, ch)"
  shows "fl \<le> D" "3 * fl < 31" "length ks = D + 1" "length ch = D + 1"
    "\<forall>d\<le>fl. ks ! d = map word_of_nat [0..<8 ^ d]"
    "\<forall>d<fl. ch ! d = map int [0..<8 ^ d]"
    "length (ch ! fl) = 8 ^ fl"
    "\<forall>d. fl < d \<and> d \<le> D \<longrightarrow> blocks (node_keys_at D K (d - 1)) (ks ! d)
           \<and> traces (node_keys_at D K d) (ks ! d) (ch ! d)"
    "traces (node_keys_at D K fl) (ks ! fl) (ch ! fl) \<or> (D = fl \<and> ch ! fl = replicate (8 ^ fl) (- 1))"
proof -
  let ?e = "replicate (D + 1) []"
  from assms obtain ks1 ch1 ks2 ch2 K2 where
    p1: "foldM (full_layer_step fl) [0..<fl + 1] (?e, ?e) = Some (ks1, ch1)"
    and p2: "foldM layer_step (rev [fl + 1..<D + 1]) (ks1, ch1, K) = Some (ks2, ch2, K2)"
    and p3: "(if D > fl then foldM (full_children_step fl K2) [0..<length K2] ch2 else Some ch2)
              = Some ch"
    and ks: "ks = ks2"
    by (auto simp: build_structure_def resize_def Let_def bind_eq_Some_conv split: if_splits)
  have e0: "\<forall>d<fl + 1. (d < length ?e \<longrightarrow> ?e ! d = []) \<and> (d < length ?e \<longrightarrow> ?e ! d = [])"
    by (simp del: replicate_Suc replicate.simps)
  from full_layers_loop[OF p1 e0] have f1: "length ks1 = D + 1" "length ch1 = D + 1"
    "\<forall>d<fl + 1. d < D + 1 \<and> 3 * d < 31 \<and> ks1 ! d = map word_of_nat [0..<8 ^ d]
        \<and> ch1 ! d = (if d \<noteq> fl then map int [0..<8 ^ d] else replicate (8 ^ d) (- 1))"
    "\<forall>d\<ge>fl + 1. ks1 ! d = ?e ! d \<and> ch1 ! d = ?e ! d"
    by (simp_all del: replicate_Suc replicate.simps)
  show flD: "fl \<le> D" and "3 * fl < 31" using f1(3) by auto
  have e1: "\<forall>d. fl + 1 \<le> d \<and> d < D + 1 \<longrightarrow> ch1 ! d = []"
    using f1(4) by (simp del: replicate_Suc replicate.simps)
  from layers_loop[OF p2 e1] have f2: "length ks2 = length ks1" "length ch2 = length ch1"
    "K2 = (parents ^^ (D + 1 - (fl + 1))) K"
    "\<forall>d. fl + 1 \<le> d \<and> d < D + 1 \<longrightarrow>
         blocks ((parents ^^ (D + 1 - d)) K) (ks2 ! d)
         \<and> traces ((parents ^^ (D + 1 - 1 - d)) K) (ks2 ! d) (ch2 ! d)"
    "\<forall>d. d < fl + 1 \<or> D + 1 \<le> d \<longrightarrow> ks2 ! d = ks1 ! d \<and> ch2 ! d = ch1 ! d"
    by auto
  have K2: "K2 = node_keys_at D K fl" using f2(3) by (simp add: node_keys_at_def)
  have lay2: "blocks (node_keys_at D K (d - 1)) (ks2 ! d) \<and> traces (node_keys_at D K d) (ks2 ! d) (ch2 ! d)"
    if "fl < d" "d \<le> D" for d
  proof -
    have "D + 1 - d = D - (d - 1)" "D + 1 - 1 - d = D - d" using that by auto
    then show ?thesis using f2(4) that by (simp add: node_keys_at_def)
  qed
  have low: "ks2 ! d = map word_of_nat [0..<8 ^ d]"
    "ch2 ! d = (if d \<noteq> fl then map int [0..<8 ^ d] else replicate (8 ^ d) (- 1))"
    if "d \<le> fl" for d
    using f1(3) f2(5) that by auto
  have c: "length ch = length ch2 \<and> (\<forall>d. d \<noteq> fl \<longrightarrow> ch ! d = ch2 ! d)
       \<and> length (ch ! fl) = length (ch2 ! fl)
       \<and> (traces K2 (ks2 ! fl) (ch ! fl) \<or> (D = fl \<and> ch ! fl = replicate (8 ^ fl) (- 1)))"
  proof (cases "D > fl")
    case False
    then have "ch = ch2" "D = fl" using p3 flD by auto
    then show ?thesis using low(2)[of fl] by simp
  next
    case True
    then have p: "foldM (full_children_step fl K2) [0..<length K2] ch2 = Some ch" using p3 by simp
    from full_children_loop[OF p] have fc: "length ch = length ch2"
      "\<forall>d. d \<noteq> fl \<longrightarrow> ch ! d = ch2 ! d" "length (ch ! fl) = length (ch2 ! fl)"
      "\<forall>s<length (ch2 ! fl). ch ! fl ! s \<noteq> ch2 ! fl ! s \<longrightarrow>
            (\<exists>i<length K2. s = unat (K2 ! i) \<and> ch ! fl ! s = int i)"
      "\<forall>i<length K2. unat (K2 ! i) < length (ch2 ! fl) \<and> ch ! fl ! unat (K2 ! i) \<noteq> - 1"
      by auto
    have l2: "ch2 ! fl = replicate (8 ^ fl) (- 1)" "ks2 ! fl = map word_of_nat [0..<8 ^ fl]"
      using low[of fl] by simp_all
    have "\<exists>i<length K2. ch ! fl ! s = int i \<and> ks2 ! fl ! s = K2 ! i"
      if s: "s < 8 ^ fl" "ch ! fl ! s \<noteq> - 1" for s
    proof -
      from fc(4) s l2(1) obtain i where i: "i < length K2" "s = unat (K2 ! i)" "ch ! fl ! s = int i"
        by auto
      have "ks2 ! fl ! s = word_of_nat s" using s(1) by (simp add: l2(2))
      then show ?thesis using i by auto
    qed
    moreover have "\<exists>s<8 ^ fl. ch ! fl ! s \<noteq> - 1 \<and> ks2 ! fl ! s = K2 ! i"
      if i: "i < length K2" for i
    proof -
      have r: "unat (K2 ! i) < 8 ^ fl" "ch ! fl ! unat (K2 ! i) \<noteq> - 1"
        using fc(5) i l2(1) by simp_all
      have "ks2 ! fl ! unat (K2 ! i) = K2 ! i" using r(1) by (simp add: l2(2))
      then show ?thesis using r by blast
    qed
    ultimately have "traces K2 (ks2 ! fl) (ch ! fl)"
      unfolding traces_def using fc(3) l2 by simp
    then show ?thesis using fc by simp
  qed
  show "length ks = D + 1" "length ch = D + 1" using f1(1,2) f2(1,2) c ks by simp_all
  show "\<forall>d\<le>fl. ks ! d = map word_of_nat [0..<8 ^ d]" using low(1) ks by simp
  show "\<forall>d<fl. ch ! d = map int [0..<8 ^ d]" using low(2) c by auto
  show "length (ch ! fl) = 8 ^ fl" using c low(2)[of fl] by simp
  show "\<forall>d. fl < d \<and> d \<le> D \<longrightarrow> blocks (node_keys_at D K (d - 1)) (ks ! d)
           \<and> traces (node_keys_at D K d) (ks ! d) (ch ! d)"
    using lay2 c ks by auto
  show "traces (node_keys_at D K fl) (ks ! fl) (ch ! fl) \<or> (D = fl \<and> ch ! fl = replicate (8 ^ fl) (- 1))"
    using c K2 ks by simp
qed

lemma parents_elems: "u \<in> set (parents K) \<Longrightarrow> \<exists>w. u = drop_bit 3 w"
proof -
  assume "u \<in> set (parents K)"
  then have "u = 0 \<or> u \<in> set (map (\<lambda>k. drop_bit 3 k) K)"
    unfolding parents_def by (rule unique_key_facts(7))
  then show ?thesis
  proof
    assume "u = 0" then have "u = drop_bit 3 0" by simp then show ?thesis by blast
  next
    assume "u \<in> set (map (\<lambda>k. drop_bit 3 k) K)" then show ?thesis by auto
  qed
qed

lemma node_keys_at_parent:
  "0 < d \<Longrightarrow> d \<le> D \<Longrightarrow> node_keys_at D K (d - 1) = parents (node_keys_at D K d)"
proof -
  assume "0 < d" "d \<le> D"
  then have "D - (d - 1) = Suc (D - d)" by simp
  then show ?thesis by (simp add: node_keys_at_def)
qed

lemma small_of_nat: "k < 8 \<Longrightarrow> (word_of_nat k :: uint32) AND 7 = word_of_nat k"
proof -
  assume k: "k < 8"
  then have "unat (word_of_nat k :: uint32) = k" by (simp add: unat_of_nat)
  then show ?thesis using low3_of_nat[of "word_of_nat k"] k by simp
qed

lemma drop_join: "k < 8 \<Longrightarrow> drop_bit 3 (push_bit 3 (drop_bit 3 (w :: uint32)) OR word_of_nat k) = drop_bit 3 w"
  using word_join3[of w "word_of_nat k"] by (simp add: small_of_nat)

lemma block_keys:
  assumes b: "blocks U kd" and t: "traces U kdp cdp" and u: "\<forall>u\<in>set U. \<exists>w. u = drop_bit 3 w"
  shows "block_keys_ok kd cdp kdp"
proof -
  have len: "length kd = 8 * length U"
    and key: "\<And>b k. b < length U \<Longrightarrow> k < 8 \<Longrightarrow> kd ! (8 * b + k) = push_bit 3 (U ! b) OR word_of_nat k"
    using b by (auto simp: blocks_def)
  have all: "0 \<le> cdp ! i \<and> 8 * nat (cdp ! i) + 8 \<le> length kd \<and>
        (\<forall>k<8. kd ! (8 * nat (cdp ! i) + k) = push_bit 3 (kdp ! i) OR word_of_nat k
               \<and> drop_bit 3 (kd ! (8 * nat (cdp ! i) + k)) = kdp ! i)"
    if i: "i < length cdp" "cdp ! i \<noteq> - 1" for i
  proof -
    from t i obtain j where j: "j < length U" "cdp ! i = int j" "kdp ! i = U ! j"
      by (auto simp: traces_def)
    obtain w where w: "U ! j = drop_bit 3 w" using u j(1) by force
    have A: "\<forall>k<8. kd ! (8 * j + k) = push_bit 3 (kdp ! i) OR word_of_nat k
          \<and> drop_bit 3 (kd ! (8 * j + k)) = kdp ! i"
    proof (intro allI impI)
      fix k :: nat assume k: "k < 8"
      have a: "kd ! (8 * j + k) = push_bit 3 (kdp ! i) OR word_of_nat k"
        using key[OF j(1) k] j(3) by simp
      have "drop_bit 3 (kd ! (8 * j + k)) = drop_bit 3 w"
        unfolding a j(3) w by (rule drop_join[OF k])
      then show "kd ! (8 * j + k) = push_bit 3 (kdp ! i) OR word_of_nat k
          \<and> drop_bit 3 (kd ! (8 * j + k)) = kdp ! i" using a j(3) w by simp
    qed
    have n: "nat (cdp ! i) = j" and B: "0 \<le> cdp ! i" "8 * j + 8 \<le> length kd"
      using j len by simp_all
    show ?thesis unfolding n using A B by blast
  qed
  have m: "length kd mod 8 = 0" using len by simp
  show ?thesis
    unfolding block_keys_ok_def list_all_iff set_upt atLeastLessThan_iff Ball_def
    using m all by blast
qed

text \<open>
  \<open>unique_key\<close> removes adjacent repetitions, so the key list of a layer above the
  deepest one is \<open>remdups_adj\<close> of the shifted input keys; on sorted input it is
  strictly increasing.
\<close>

lemma starts_remdups:
  "ks \<noteq> [] \<Longrightarrow>
   map (\<lambda>i. ks ! i) (0 # filter (run_start ks) [1..<length ks]) = remdups_adj (ks :: uint32 list)"
proof (induction ks rule: rev_induct)
  case Nil then show ?case by simp
next
  case (snoc x xs)
  show ?case
  proof (cases "xs = []")
    case True then show ?thesis by simp
  next
    case False
    define m where "m = length xs"
    have m: "1 \<le> m" using False by (cases xs) (auto simp: m_def)
    have up: "[1..<length (xs @ [x])] = [1..<m] @ [m]" using m by (simp add: m_def)
    have f: "filter (run_start (xs @ [x])) [1..<m] = filter (run_start xs) [1..<m]"
      by (intro filter_cong) (auto simp: run_start_def nth_append m_def)
    have mp: "map (\<lambda>i. (xs @ [x]) ! i) (0 # filter (run_start xs) [1..<m])
        = map (\<lambda>i. xs ! i) (0 # filter (run_start xs) [1..<m])"
      using m by (intro map_cong) (auto simp: nth_append m_def)
    have rs: "run_start (xs @ [x]) m \<longleftrightarrow> x \<noteq> last xs"
      using False m by (auto simp: run_start_def nth_append m_def last_conv_nth)
    obtain ys y where xs: "xs = ys @ [y]" using False by (cases xs rule: rev_cases) auto
    have r: "remdups_adj (xs @ [x]) = remdups_adj xs @ (if last xs = x then [] else [x])"
      unfolding xs using remdups_adj_append_two[of ys y x] by simp
    have "map (\<lambda>i. (xs @ [x]) ! i) (0 # filter (run_start (xs @ [x])) [1..<length (xs @ [x])])
        = map (\<lambda>i. xs ! i) (0 # filter (run_start xs) [1..<m]) @ (if last xs = x then [] else [x])"
      unfolding up using f mp rs by (auto simp: m_def)
    then show ?thesis using snoc.IH[OF False] r by (simp add: m_def)
  qed
qed

lemma unique_key_remdups: "ks \<noteq> [] \<Longrightarrow> fst (unique_key ks) = remdups_adj ks"
proof -
  assume a: "ks \<noteq> []"
  then have "1 \<le> length ks" by (cases ks) auto
  from unique_key_idx(2)[OF this] starts_remdups[OF a] show ?thesis by simp
qed

lemma parents_remdups: "K \<noteq> [] \<Longrightarrow> parents K = remdups_adj (map (\<lambda>k. drop_bit 3 k) K)"
  unfolding parents_def by (rule unique_key_remdups) simp

lemma parents_Nil: "parents [] = [0]"
  by (simp add: parents_def unique_key_def unique_step_def resize_def)

lemma remdups_adj_map_twice: "remdups_adj (map f (remdups_adj xs)) = remdups_adj (map f xs)"
proof (induction xs rule: remdups_adj.induct)
  case 1 then show ?case by simp
next
  case (2 x) then show ?case by simp
next
  case (3 x y xs)
  show ?case
  proof (cases "x = y")
    case True then show ?thesis using 3 by simp
  next
    case False
    obtain zs where z: "remdups_adj (y # xs) = y # zs"
      by (cases "remdups_adj (y # xs)") (auto simp: remdups_adj_Cons split: list.splits if_splits)
    have ih: "remdups_adj (f y # map f zs) = remdups_adj (f y # map f xs)"
      using 3(2)[OF False] z by simp
    then show ?thesis using False z by simp
  qed
qed

lemma funpow_parents:
  "K \<noteq> [] \<Longrightarrow> (parents ^^ Suc n) K = remdups_adj (map (\<lambda>k. drop_bit (3 * Suc n) k) K)"
proof (induction n)
  case 0 then show ?case by (simp add: parents_remdups)
next
  case (Suc n)
  let ?M = "map (\<lambda>k. drop_bit (3 * Suc n) k) K"
  have ne: "remdups_adj ?M \<noteq> []" using Suc.prems by simp
  have "(parents ^^ Suc (Suc n)) K = parents (remdups_adj ?M)" using Suc by simp
  also have "\<dots> = remdups_adj (map (\<lambda>k. drop_bit 3 k) (remdups_adj ?M))"
    using ne by (rule parents_remdups)
  also have "\<dots> = remdups_adj (map (\<lambda>k. drop_bit 3 k) ?M)" by (rule remdups_adj_map_twice)
  also have "map (\<lambda>k. drop_bit 3 k) ?M = map (\<lambda>k. drop_bit (3 * Suc (Suc n)) k) K"
    by (simp add: drop_bit_drop_bit add.commute)
  finally show ?case .
qed

lemma drop3_mono: "(a :: uint32) \<le> b \<Longrightarrow> drop_bit 3 a \<le> drop_bit 3 b"
  by (simp add: word_le_nat_alt drop_bit_eq_div unat_div div_le_mono)

lemma strict_remdups_adj:
  "sorted (xs :: 'a :: linorder list) \<Longrightarrow> sorted_wrt (<) (remdups_adj xs)"
proof (induction xs rule: remdups_adj.induct)
  case 1 then show ?case by simp
next
  case (2 x) then show ?case by simp
next
  case (3 x y xs)
  show ?case
  proof (cases "x = y")
    case True then show ?thesis using 3 by simp
  next
    case False
    have s: "sorted (y # xs)" using 3(3) by simp
    have "\<forall>z\<in>set (remdups_adj (y # xs)). x < z"
      using 3(3) False by (auto simp del: remdups_adj.simps)
    then show ?thesis using 3(2)[OF False s] False by simp
  qed
qed

lemma parents_strict: "sorted K \<Longrightarrow> sorted_wrt (<) (parents K)"
proof (cases "K = []")
  case True then show ?thesis by (simp add: parents_Nil)
next
  case False
  assume "sorted K"
  then have "sorted (map (\<lambda>k. drop_bit 3 k) K)" by (rule sorted_map_mono) (rule drop3_mono)
  then show ?thesis unfolding parents_remdups[OF False] by (rule strict_remdups_adj)
qed

lemma funpow_parents_sorted: "sorted K \<Longrightarrow> sorted ((parents ^^ n) K)"
proof (induction n)
  case 0 then show ?case by simp
next
  case (Suc n)
  then have "sorted_wrt (<) (parents ((parents ^^ n) K))" by (intro parents_strict) simp
  then show ?case by (simp add: strict_sorted_iff)
qed

lemma node_keys_strict:
  assumes "sorted K" "e < D"
  shows "sorted_wrt (<) (node_keys_at D K e)"
proof -
  have "D - e = Suc (D - e - 1)" using assms(2) by simp
  then have "node_keys_at D K e = parents ((parents ^^ (D - e - 1)) K)"
    unfolding node_keys_at_def by (metis funpow.simps(2) o_apply)
  then show ?thesis using parents_strict[OF funpow_parents_sorted[OF assms(1)]] by simp
qed

lemma filter_enum:
  fixes c :: "int list"
  assumes r: "\<forall>s<length c. c ! s \<noteq> - 1 \<longrightarrow> (\<exists>i<n. c ! s = int i)"
    and sj: "\<forall>i<n. \<exists>s<length c. c ! s = int i"
    and mono: "\<forall>s s'. s < s' \<and> s' < length c \<and> c ! s \<noteq> - 1 \<and> c ! s' \<noteq> - 1 \<longrightarrow> c ! s < c ! s'"
  shows "filter (\<lambda>x. x \<noteq> - 1) c = map int [0..<n]"
proof -
  let ?R = "\<lambda>a b :: int. a \<noteq> - 1 \<and> b \<noteq> - 1 \<longrightarrow> a < b"
  have "sorted_wrt ?R c" unfolding sorted_wrt_iff_nth_less using mono by blast
  then have "sorted_wrt ?R (filter (\<lambda>x. x \<noteq> - 1) c)" by (rule sorted_wrt_filter)
  then have s1: "sorted_wrt (<) (filter (\<lambda>x. x \<noteq> - 1) c)"
    by (rule sorted_wrt_mono_rel[rotated]) auto
  have s2: "sorted_wrt (<) (map int [0..<n])" by (simp add: sorted_wrt_map)
  have "set (filter (\<lambda>x. x \<noteq> - 1) c) = set (map int [0..<n])"
  proof (intro equalityI subsetI)
    fix x assume "x \<in> set (filter (\<lambda>x. x \<noteq> - 1) c)"
    then obtain s where "s < length c" "c ! s = x" "x \<noteq> - 1" by (auto simp: in_set_conv_nth)
    then show "x \<in> set (map int [0..<n])" using r by auto
  next
    fix x assume "x \<in> set (map int [0..<n])"
    then obtain i where i: "i < n" "x = int i" by auto
    then obtain s where "s < length c" "c ! s = int i" using sj by blast
    then show "x \<in> set (filter (\<lambda>x. x \<noteq> - 1) c)" using i by (auto simp: in_set_conv_nth)
  qed
  from strict_sorted_equal[OF s2 s1 this] show ?thesis .
qed

lemma unat_join:
  assumes "k < 8"
  shows "unat (push_bit 3 (drop_bit 3 (w :: uint32)) OR word_of_nat k) = 8 * unat (drop_bit 3 w) + k"
proof -
  let ?x = "push_bit 3 (drop_bit 3 w) OR (word_of_nat k :: uint32)"
  have "push_bit 3 (drop_bit 3 ?x) OR (?x AND 7) = ?x" by (rule word_split3)
  have d: "drop_bit 3 ?x = drop_bit 3 w" by (rule drop_join[OF assms])
  have l: "unat (?x AND 7) = k"
  proof -
    have "?x AND 7 = word_of_nat k AND 7"
      unfolding seven_mask by (rule bit_word_eqI) (auto simp: bit_simps)
    then have "?x AND 7 = word_of_nat k" by (simp only: small_of_nat[OF assms])
    then show ?thesis using assms by (simp add: unat_of_nat)
  qed
  have "unat ?x = 8 * (unat ?x div 8) + unat ?x mod 8" by simp
  also have "unat ?x div 8 = unat (drop_bit 3 ?x)" by (simp add: drop_bit_eq_div unat_div)
  also have "unat ?x mod 8 = unat (?x AND 7)" by (simp add: unat_low3(1))
  finally show ?thesis using d l by simp
qed

lemma blocks_strict:
  assumes b: "blocks U kd" and s: "sorted_wrt (<) U" and u: "\<forall>u\<in>set U. \<exists>w. u = drop_bit 3 w"
  shows "sorted_wrt (<) kd"
proof -
  have len: "length kd = 8 * length U"
    and key: "\<And>b k. b < length U \<Longrightarrow> k < 8 \<Longrightarrow> kd ! (8 * b + k) = push_bit 3 (U ! b) OR word_of_nat k"
    using b by (auto simp: blocks_def)
  have val: "unat (kd ! j) = 8 * unat (U ! (j div 8)) + j mod 8" if j: "j < length kd" for j
  proof -
    have b: "j div 8 < length U" using j len by auto
    obtain w where w: "U ! (j div 8) = drop_bit 3 w" using u b by force
    have "kd ! (8 * (j div 8) + j mod 8) = push_bit 3 (U ! (j div 8)) OR word_of_nat (j mod 8)"
      by (rule key[OF b]) simp
    then have "kd ! j = push_bit 3 (drop_bit 3 w) OR word_of_nat (j mod 8)" by (simp add: w)
    then show ?thesis using unat_join[of "j mod 8" w] by (simp add: w)
  qed
  have "kd ! i < kd ! j" if ij: "i < j" "j < length kd" for i j
  proof -
    have i: "i < length kd" using ij by simp
    have bj: "j div 8 < length U" using ij len by auto
    consider (a) "i div 8 < j div 8" | (b) "i div 8 = j div 8" "i mod 8 < j mod 8"
      using ij(1) by (metis div_le_mono less_imp_le_nat linorder_neqE_nat mod_less_eq_dividend
          mult_div_mod_eq nat_add_left_cancel_less not_le)
    then have "unat (kd ! i) < unat (kd ! j)"
    proof cases
      case a
      then have "U ! (i div 8) < U ! (j div 8)" using s bj by (simp add: sorted_wrt_iff_nth_less)
      then have "unat (U ! (i div 8)) < unat (U ! (j div 8))" by (simp add: word_less_nat_alt)
      moreover have "i mod 8 < 8" by simp
      ultimately show ?thesis unfolding val[OF i] val[OF ij(2)] by linarith
    next
      case b then show ?thesis unfolding val[OF i] val[OF ij(2)] by simp
    qed
    then show ?thesis by (simp add: word_less_nat_alt)
  qed
  then show ?thesis unfolding sorted_wrt_iff_nth_less by blast
qed

lemma full_keys_strict:
  assumes "3 * fl < 31"
  shows "sorted_wrt (<) (map word_of_nat [0..<8 ^ fl] :: uint32 list)"
proof -
  have "(8::nat) ^ fl = 2 ^ (3 * fl)" by (simp add: power_mult)
  also have "\<dots> < 2 ^ 32" using assms by (intro power_strict_increasing) simp_all
  finally have b: "(8::nat) ^ fl < 2 ^ 32" .
  have "(word_of_nat i :: uint32) < word_of_nat j" if "i < j" "j < 8 ^ fl" for i j
    using that b by (simp add: word_less_nat_alt unat_of_nat)
  then show ?thesis unfolding sorted_wrt_iff_nth_less by simp
qed

lemma node_keys_at_occupied:
  assumes "K \<noteq> []" "fl < D"
  shows "node_keys_at D K fl = occupied_keys D fl K"
proof -
  have "D - fl = Suc (D - fl - 1)" using assms(2) by simp
  then show ?thesis
    unfolding node_keys_at_def occupied_keys_def using funpow_parents[OF assms(1), of "D - fl - 1"]
    by simp
qed

text \<open>
  With strictly increasing keys on both sides, the child pointers that are not
  \<open>-1\<close> enumerate the positions of \<open>U\<close> in order.
\<close>

lemma traces_bij:
  assumes t: "traces U kdp cdp" and s: "sorted_wrt (<) U" and sk: "sorted_wrt (<) kdp"
  shows "length cdp = length kdp"
    "filter (\<lambda>c. c \<noteq> - 1) cdp = map int [0..<length U]"
    "\<And>b. b < length U \<Longrightarrow> \<exists>i<length cdp. cdp ! i = int b \<and> kdp ! i = U ! b"
proof -
  have len: "length cdp = length kdp"
    and t1: "\<And>s. s < length cdp \<Longrightarrow> cdp ! s \<noteq> - 1 \<Longrightarrow> \<exists>i<length U. cdp ! s = int i \<and> kdp ! s = U ! i"
    and t2: "\<And>i. i < length U \<Longrightarrow> \<exists>s<length cdp. cdp ! s \<noteq> - 1 \<and> kdp ! s = U ! i"
    using t by (auto simp: traces_def)
  have dU: "distinct U" using s by (simp add: strict_sorted_iff)
  show "length cdp = length kdp" by fact
  show ex: "\<exists>i<length cdp. cdp ! i = int b \<and> kdp ! i = U ! b" if b: "b < length U" for b
  proof -
    from t2[OF b] obtain i where i: "i < length cdp" "cdp ! i \<noteq> - 1" "kdp ! i = U ! b" by blast
    from t1[OF i(1,2)] obtain b' where b': "b' < length U" "cdp ! i = int b'" "kdp ! i = U ! b'"
      by blast
    have "b' = b" using dU b b' i(3) by (simp add: nth_eq_iff_index_eq)
    then show ?thesis using i b' by blast
  qed
  have mono: "cdp ! a < cdp ! a'"
    if a: "a < a'" "a' < length cdp" "cdp ! a \<noteq> - 1" "cdp ! a' \<noteq> - 1" for a a'
  proof -
    have al: "a < length cdp" using a by simp
    from t1[OF al a(3)] obtain i where i: "i < length U" "cdp ! a = int i" "kdp ! a = U ! i" by blast
    from t1[OF a(2) a(4)] obtain i' where i': "i' < length U" "cdp ! a' = int i'" "kdp ! a' = U ! i'"
      by blast
    have "kdp ! a < kdp ! a'" using sk a(1,2) len by (simp add: sorted_wrt_iff_nth_less)
    then have lt: "U ! i < U ! i'" using i i' by simp
    have "i < i'"
    proof (rule ccontr)
      assume "\<not> i < i'"
      then have "i' \<le> i" by simp
      then have "U ! i' \<le> U ! i"
        using s i(1) by (simp add: strict_sorted_iff sorted_nth_mono)
      then show False using lt by simp
    qed
    then show ?thesis using i i' by simp
  qed
  show "filter (\<lambda>c. c \<noteq> - 1) cdp = map int [0..<length U]"
  proof (rule filter_enum)
    show "\<forall>s<length cdp. cdp ! s \<noteq> - 1 \<longrightarrow> (\<exists>i<length U. cdp ! s = int i)" using t1 by blast
    show "\<forall>i<length U. \<exists>s<length cdp. cdp ! s = int i" using ex by blast
    show "\<forall>s s'. s < s' \<and> s' < length cdp \<and> cdp ! s \<noteq> - 1 \<and> cdp ! s' \<noteq> - 1 \<longrightarrow> cdp ! s < cdp ! s'"
      using mono by blast
  qed
qed

lemma layer_keys_strict:
  assumes b: "build_structure D fl K = Some (ks, ch)" and s: "sorted K" and e: "fl \<le> e" "e < D"
  shows "sorted_wrt (<) (ks ! e)"
proof (cases "e = fl")
  case True
  note r = build_structure_result[OF b]
  have "ks ! fl = map word_of_nat [0..<8 ^ fl]" using r(5) by simp
  then show ?thesis using full_keys_strict[OF r(2)] True by simp
next
  case False
  note r = build_structure_result[OF b]
  have e': "fl < e" "e \<le> D" "0 < e" "e - 1 < D" using False e by simp_all
  have bl: "blocks (node_keys_at D K (e - 1)) (ks ! e)" using r(8) e' by simp
  have u: "\<forall>u\<in>set (node_keys_at D K (e - 1)). \<exists>w. u = drop_bit 3 w"
    unfolding node_keys_at_parent[OF e'(3,2)] using parents_elems by blast
  show ?thesis using blocks_strict[OF bl node_keys_strict[OF s e'(4)] u] .
qed

text \<open>
  C2. After \<open>build_structure\<close> on sorted keys (\<open>build\<close> passes the output of
  \<open>sort_keys\<close> and \<open>unique_key\<close>), for every layer \<open>d\<close> with
  \<open>full_layer < d \<le> depth\<close>: the number of nodes is a multiple of 8; the child
  pointers of layer \<open>d - 1\<close> that are not \<open>-1\<close> are, in node order, exactly
  \<open>0, 1, ..., nnum[d] / 8 - 1\<close>, so every 8-block of layer \<open>d\<close> belongs to exactly one
  internal parent and the blocks follow the order of the parents; for every internal
  node \<open>i\<close> of layer \<open>d - 1\<close> with block \<open>b = children[d-1][i]\<close> and every \<open>k < 8\<close>,
  \<open>keys[d][8 b + k] = (keys[d-1][i] << 3) | k\<close>; and every node \<open>j\<close> of layer \<open>d\<close> has
  a parent \<open>i\<close> with \<open>children[d-1][i] = j / 8\<close> whose key is \<open>keys[d][j] >> 3\<close>.
\<close>

theorem build_structure_child_keys:
  assumes "build_structure D fl K = Some (ks, ch)" "sorted K" "fl < d" "d \<le> D"
  shows "block_keys_ok (ks ! d) (ch ! (d - 1)) (ks ! (d - 1))
     \<and> length (ch ! (d - 1)) = length (ks ! (d - 1))
     \<and> filter (\<lambda>c. c \<noteq> - 1) (ch ! (d - 1)) = map int [0..<length (ks ! d) div 8]
     \<and> (\<forall>j<length (ks ! d). \<exists>i<length (ch ! (d - 1)).
            ch ! (d - 1) ! i = int (j div 8)
          \<and> ks ! d ! j = push_bit 3 (ks ! (d - 1) ! i) OR word_of_nat (j mod 8)
          \<and> drop_bit 3 (ks ! d ! j) = ks ! (d - 1) ! i)"
proof -
  note r = build_structure_result[OF assms(1)]
  define U where "U = node_keys_at D K (d - 1)"
  have d0: "0 < d" "d - 1 < D" "fl \<le> d - 1" using assms(3,4) by simp_all
  have b: "blocks U (ks ! d)" using r(8) assms(3,4) by (simp add: U_def)
  have t: "traces U (ks ! (d - 1)) (ch ! (d - 1))"
  proof (cases "d - 1 = fl")
    case True
    then show ?thesis using r(9) assms(3,4) by (auto simp: U_def)
  next
    case False
    then have "fl < d - 1" "d - 1 \<le> D" using assms(3,4) by auto
    then show ?thesis using r(8) by (simp add: U_def)
  qed
  have u: "\<forall>u\<in>set U. \<exists>w. u = drop_bit 3 w"
    unfolding U_def node_keys_at_parent[OF d0(1) assms(4)] using parents_elems by blast
  have sU: "sorted_wrt (<) U" unfolding U_def using node_keys_strict[OF assms(2) d0(2)] .
  have sk: "sorted_wrt (<) (ks ! (d - 1))" using layer_keys_strict[OF assms(1,2) d0(3,2)] .
  note B = traces_bij[OF t sU sk]
  have len: "length (ks ! d) = 8 * length U"
    and key: "\<And>b k. b < length U \<Longrightarrow> k < 8 \<Longrightarrow> ks ! d ! (8 * b + k) = push_bit 3 (U ! b) OR word_of_nat k"
    using b by (auto simp: blocks_def)
  have n: "length (ks ! d) div 8 = length U" using len by simp
  have c4: "\<exists>i<length (ch ! (d - 1)).
            ch ! (d - 1) ! i = int (j div 8)
          \<and> ks ! d ! j = push_bit 3 (ks ! (d - 1) ! i) OR word_of_nat (j mod 8)
          \<and> drop_bit 3 (ks ! d ! j) = ks ! (d - 1) ! i" if j: "j < length (ks ! d)" for j
  proof -
    have bl: "j div 8 < length U" using j len by auto
    from B(3)[OF bl] obtain i where i: "i < length (ch ! (d - 1))"
      "ch ! (d - 1) ! i = int (j div 8)" "ks ! (d - 1) ! i = U ! (j div 8)" by blast
    obtain w where w: "U ! (j div 8) = drop_bit 3 w" using u bl by force
    have m: "j mod 8 < 8" by simp
    have "ks ! d ! (8 * (j div 8) + j mod 8) = push_bit 3 (U ! (j div 8)) OR word_of_nat (j mod 8)"
      by (rule key[OF bl m])
    then have a: "ks ! d ! j = push_bit 3 (U ! (j div 8)) OR word_of_nat (j mod 8)" by simp
    have "drop_bit 3 (ks ! d ! j) = drop_bit 3 w" unfolding a w by (rule drop_join[OF m])
    then show ?thesis using i a w by auto
  qed
  show ?thesis using block_keys[OF b t u] B(1) B(2) c4 unfolding n by blast
qed

theorem build_structure_child_keys_witness:
  "build_structure 2 1 [3, 8, 9, 63] = Some
     ([[0], [0, 1, 2, 3, 4, 5, 6, 7],
       [0, 1, 2, 3, 4, 5, 6, 7, 8, 9, 10, 11, 12, 13, 14, 15, 56, 57, 58, 59, 60, 61, 62, 63]],
      [[0], [0, 1, - 1, - 1, - 1, - 1, - 1, 2],
       [- 1, - 1, - 1, 0, - 1, - 1, - 1, - 1, 1, 2, - 1, - 1, - 1, - 1, - 1,
        - 1, - 1, - 1, - 1, - 1, - 1, - 1, - 1, 3]])
   \<and> sorted [3, 8, 9, 63 :: uint32] \<and> (1 :: nat) < 2 \<and> (2 :: nat) \<le> 2
   \<and> block_keys_ok
        [0, 1, 2, 3, 4, 5, 6, 7, 8, 9, 10, 11, 12, 13, 14, 15, 56, 57, 58, 59, 60, 61, 62, 63]
        [0, 1, - 1, - 1, - 1, - 1, - 1, 2] [0, 1, 2, 3, 4, 5, 6, 7]
   \<and> filter (\<lambda>c. c \<noteq> - 1) [0, 1, - 1, - 1, - 1, - 1, - 1, 2 :: int] = map int [0..<24 div 8]"
proof -
  have b: "build_structure 2 1 [3, 8, 9, 63] = Some
     ([[0], [0, 1, 2, 3, 4, 5, 6, 7],
       [0, 1, 2, 3, 4, 5, 6, 7, 8, 9, 10, 11, 12, 13, 14, 15, 56, 57, 58, 59, 60, 61, 62, 63]],
      [[0], [0, 1, - 1, - 1, - 1, - 1, - 1, 2],
       [- 1, - 1, - 1, 0, - 1, - 1, - 1, - 1, 1, 2, - 1, - 1, - 1, - 1, - 1,
        - 1, - 1, - 1, - 1, - 1, - 1, - 1, - 1, 3]])"
    by code_simp
  have s: "sorted [3, 8, 9, 63 :: uint32]" by simp
  have h: "(1 :: nat) < 2" "(2 :: nat) \<le> 2" by simp_all
  from build_structure_child_keys[OF b s h] b s h show ?thesis by simp
qed

text \<open>
  C3, as the code has it. After \<open>build_structure\<close>, every layer \<open>d \<le> full_layer\<close>
  has \<open>8^d\<close> nodes with \<open>keys[d][i] = i\<close>; every layer \<open>d < full_layer\<close> has
  \<open>children[d][i] = i\<close>, so all its nodes are internal. At \<open>d = full_layer\<close> itself
  a node is internal only if its key is one of the keys left for that layer. When
  \<open>depth = full_layer\<close> every child of that layer is \<open>-1\<close>. When
  \<open>depth > full_layer\<close> and the input keys are sorted and not empty, the node whose
  key is the \<open>i\<close>-th occupied key has the child \<open>i\<close>, and every node whose key is not
  occupied has the child \<open>-1\<close>.
\<close>

theorem build_structure_full_layers:
  assumes "build_structure D fl K = Some (ks, ch)" "d \<le> fl"
  shows "length (ks ! d) = 8 ^ d \<and> length (ch ! d) = 8 ^ d
     \<and> (\<forall>i<8 ^ d. ks ! d ! i = word_of_nat i)
     \<and> (d < fl \<longrightarrow> (\<forall>i<8 ^ d. ch ! d ! i = int i))
     \<and> (d = fl \<longrightarrow> (\<forall>s<8 ^ d. ch ! d ! s = - 1
            \<or> (\<exists>i<length (node_keys_at D K fl).
                   ch ! d ! s = int i \<and> node_keys_at D K fl ! i = word_of_nat s)))
     \<and> (d = fl \<and> D = fl \<longrightarrow> (\<forall>s<8 ^ d. ch ! d ! s = - 1))
     \<and> (d = fl \<and> fl < D \<and> sorted K \<and> K \<noteq> [] \<longrightarrow>
          (\<forall>i<length (occupied_keys D fl K).
              unat (occupied_keys D fl K ! i) < 8 ^ fl
            \<and> ch ! fl ! unat (occupied_keys D fl K ! i) = int i)
        \<and> (\<forall>s<8 ^ fl. word_of_nat s \<notin> set (occupied_keys D fl K) \<longrightarrow> ch ! fl ! s = - 1))"
proof -
  note r = build_structure_result[OF assms(1)]
  have k: "ks ! d = map word_of_nat [0..<8 ^ d]" using r(5) assms(2) by simp
  have c: "d < fl \<Longrightarrow> ch ! d = map int [0..<8 ^ d]" using r(6) by simp
  have l: "length (ch ! d) = 8 ^ d"
  proof (cases "d = fl")
    case True then show ?thesis using r(7) by simp
  next
    case False then show ?thesis using c assms(2) by simp
  qed
  have f: "ch ! fl ! s = - 1
            \<or> (\<exists>i<length (node_keys_at D K fl).
                   ch ! fl ! s = int i \<and> node_keys_at D K fl ! i = word_of_nat s)"
    if s: "s < 8 ^ fl" for s
    using r(9)
  proof
    assume "D = fl \<and> ch ! fl = replicate (8 ^ fl) (- 1)"
    then show ?thesis using s by simp
  next
    assume t: "traces (node_keys_at D K fl) (ks ! fl) (ch ! fl)"
    have "ks ! fl ! s = word_of_nat s" using r(5) s by simp
    then show ?thesis using t s r(7) by (auto simp: traces_def)
  qed
  have e: "\<forall>s<8 ^ fl. ch ! fl ! s = - 1" if "D = fl"
  proof -
    have p: "foldM layer_step (rev [fl + 1..<fl + 1]) x = Some x" for x by simp
    from r(9) show ?thesis
    proof
      assume "D = fl \<and> ch ! fl = replicate (8 ^ fl) (- 1)"
      then show ?thesis by simp
    next
      assume t: "traces (node_keys_at D K fl) (ks ! fl) (ch ! fl)"
      from assms(1) that obtain ks1 ch1 where
        p1: "foldM (full_layer_step fl) [0..<fl + 1] (replicate (fl + 1) [], replicate (fl + 1) [])
               = Some (ks1, ch1)" and "ch = ch1"
        by (auto simp: build_structure_def resize_def Let_def bind_eq_Some_conv split: if_splits
            simp del: replicate_Suc replicate.simps upt_Suc)
      have e0: "\<forall>d<fl + 1. (d < length (replicate (fl + 1) ([] :: uint32 list)) \<longrightarrow>
                   replicate (fl + 1) ([] :: uint32 list) ! d = [])
                \<and> (d < length (replicate (fl + 1) ([] :: int list)) \<longrightarrow>
                   replicate (fl + 1) ([] :: int list) ! d = [])"
        by (simp del: replicate_Suc replicate.simps)
      from full_layers_loop[OF p1 e0] have "ch1 ! fl = replicate (8 ^ fl) (- 1)" by simp
      then show ?thesis using \<open>ch = ch1\<close> by simp
    qed
  qed
  have o: "(\<forall>i<length (occupied_keys D fl K).
              unat (occupied_keys D fl K ! i) < 8 ^ fl
            \<and> ch ! fl ! unat (occupied_keys D fl K ! i) = int i)
        \<and> (\<forall>s<8 ^ fl. word_of_nat s \<notin> set (occupied_keys D fl K) \<longrightarrow> ch ! fl ! s = - 1)"
    if h: "fl < D" "sorted K" "K \<noteq> []"
  proof -
    define U where "U = occupied_keys D fl K"
    have U: "node_keys_at D K fl = U" unfolding U_def by (rule node_keys_at_occupied[OF h(3,1)])
    have t: "traces U (ks ! fl) (ch ! fl)" using r(9) h(1) U by auto
    have sU: "sorted_wrt (<) U" using node_keys_strict[OF h(2,1)] U by simp
    have kf: "ks ! fl = map word_of_nat [0..<8 ^ fl]" using r(5) by simp
    have sk: "sorted_wrt (<) (ks ! fl)" unfolding kf by (rule full_keys_strict[OF r(2)])
    note B = traces_bij[OF t sU sk]
    have "(8::nat) ^ fl = 2 ^ (3 * fl)" by (simp add: power_mult)
    also have "\<dots> < 2 ^ 32" using r(2) by (intro power_strict_increasing) simp_all
    finally have b32: "(8::nat) ^ fl < 2 ^ 32" .
    have a: "unat (U ! i) < 8 ^ fl \<and> ch ! fl ! unat (U ! i) = int i" if i: "i < length U" for i
    proof -
      from B(3)[OF i] obtain s where s: "s < length (ch ! fl)" "ch ! fl ! s = int i"
        "ks ! fl ! s = U ! i" by blast
      have s8: "s < 8 ^ fl" using s(1) r(7) by simp
      then have "U ! i = word_of_nat s" using s(3) kf by simp
      then have "unat (U ! i) = s" using s8 b32 by (simp add: unat_of_nat)
      then show ?thesis using s8 s(2) by simp
    qed
    have n: "ch ! fl ! s = - 1" if s: "s < 8 ^ fl" "word_of_nat s \<notin> set U" for s
    proof (rule ccontr)
      assume "ch ! fl ! s \<noteq> - 1"
      then obtain i where "i < length U" "ks ! fl ! s = U ! i"
        using t s(1) r(7) by (auto simp: traces_def)
      then have "word_of_nat s \<in> set U" using s(1) kf by (auto simp: in_set_conv_nth)
      then show False using s(2) by simp
    qed
    show ?thesis using a n unfolding U_def by blast
  qed
  show ?thesis using k c l f e o by auto
qed

theorem build_structure_full_layers_witness:
  "build_structure 2 1 [3, 8, 9, 63] = Some
     ([[0], [0, 1, 2, 3, 4, 5, 6, 7],
       [0, 1, 2, 3, 4, 5, 6, 7, 8, 9, 10, 11, 12, 13, 14, 15, 56, 57, 58, 59, 60, 61, 62, 63]],
      [[0], [0, 1, - 1, - 1, - 1, - 1, - 1, 2],
       [- 1, - 1, - 1, 0, - 1, - 1, - 1, - 1, 1, 2, - 1, - 1, - 1, - 1, - 1,
        - 1, - 1, - 1, - 1, - 1, - 1, - 1, - 1, 3]])
   \<and> (1 :: nat) \<le> 1 \<and> (1 :: nat) < 2 \<and> sorted [3, 8, 9, 63 :: uint32] \<and> [3, 8, 9, 63 :: uint32] \<noteq> []
   \<and> occupied_keys 2 1 [3, 8, 9, 63] = [0, 1, 7]
   \<and> [0, 1, - 1, - 1, - 1, - 1, - 1, 2 :: int] ! unat ([0, 1, 7 :: uint32] ! 2) = int 2
   \<and> [0, 1, - 1, - 1, - 1, - 1, - 1, 2 :: int] ! 4 = - 1
   \<and> build_structure 1 1 [5] = Some
        ([[0], [0, 1, 2, 3, 4, 5, 6, 7]], [[0], [- 1, - 1, - 1, - 1, - 1, - 1, - 1, - 1]])
   \<and> [- 1, - 1, - 1, - 1, - 1, - 1, - 1, - 1 :: int] ! 5 = - 1
   \<and> (0 :: nat) < 1 \<and> [0 :: int] ! 0 = int 0"
proof -
  have b: "build_structure 2 1 [3, 8, 9, 63] = Some
     ([[0], [0, 1, 2, 3, 4, 5, 6, 7],
       [0, 1, 2, 3, 4, 5, 6, 7, 8, 9, 10, 11, 12, 13, 14, 15, 56, 57, 58, 59, 60, 61, 62, 63]],
      [[0], [0, 1, - 1, - 1, - 1, - 1, - 1, 2],
       [- 1, - 1, - 1, 0, - 1, - 1, - 1, - 1, 1, 2, - 1, - 1, - 1, - 1, - 1,
        - 1, - 1, - 1, - 1, - 1, - 1, - 1, - 1, 3]])"
    by code_simp
  have b1: "build_structure 1 1 [5] = Some
        ([[0], [0, 1, 2, 3, 4, 5, 6, 7]], [[0], [- 1, - 1, - 1, - 1, - 1, - 1, - 1, - 1]])"
    by code_simp
  have h: "(1 :: nat) \<le> 1" "(1 :: nat) < 2" "sorted [3, 8, 9, 63 :: uint32]"
    "[3, 8, 9, 63 :: uint32] \<noteq> []" by simp_all
  have o: "occupied_keys 2 1 [3, 8, 9, 63] = [0, 1, 7]" by code_simp
  have w4: "(word_of_nat 4 :: uint32) \<notin> set [0, 1, 7]" by simp
  note t = build_structure_full_layers[OF b h(1)]
  have "[0, 1, - 1, - 1, - 1, - 1, - 1, 2 :: int] ! unat ([0, 1, 7 :: uint32] ! 2) = int 2"
    using t h o by (simp del: nth_Cons_numeral)
  moreover have "[0, 1, - 1, - 1, - 1, - 1, - 1, 2 :: int] ! 4 = - 1" by simp
  moreover have "[- 1, - 1, - 1, - 1, - 1, - 1, - 1, - 1 :: int] ! 5 = - 1"
    using build_structure_full_layers[OF b1 h(1)] by simp
  moreover have "(0 :: nat) < 1 \<and> [0 :: int] ! 0 = int 0"
    using build_structure_full_layers[OF b, of 0] by simp
  ultimately show ?thesis using b b1 h o by blast
qed

text \<open>
  C3 as stated fails at \<open>d = full_layer\<close>: with depth 2, full layer 1 and the single
  occupied key 63, node 0 of layer 1 is a leaf, and node 7 has the child 0, not 7.
\<close>

theorem full_layer_children_counterexample:
  "build_structure 2 1 [63] = Some
     ([[0], [0, 1, 2, 3, 4, 5, 6, 7], [56, 57, 58, 59, 60, 61, 62, 63]],
      [[0], [- 1, - 1, - 1, - 1, - 1, - 1, - 1, 0], [- 1, - 1, - 1, - 1, - 1, - 1, - 1, 0]])
   \<and> [- 1, - 1, - 1, - 1, - 1, - 1, - 1, 0 :: int] ! 0 = - 1
   \<and> [- 1, - 1, - 1, - 1, - 1, - 1, - 1, 0 :: int] ! 7 \<noteq> 7"
proof -
  have "build_structure 2 1 [63] = Some
     ([[0], [0, 1, 2, 3, 4, 5, 6, 7], [56, 57, 58, 59, 60, 61, 62, 63]],
      [[0], [- 1, - 1, - 1, - 1, - 1, - 1, - 1, 0], [- 1, - 1, - 1, - 1, - 1, - 1, - 1, 0]])"
    by code_simp
  then show ?thesis by simp
qed

section \<open>Properties of trim_octree\<close>

lemma iget_nat [simp]: "iget xs (int s) = vget xs s"
  by (simp add: iget_def)
lemma iset_nat [simp]: "iset xs (int s) v = vset xs s v"
  by (simp add: iset_def)

lemma drop_cond_ok:
  assumes "s < length ne" "hd' \<longrightarrow> s < length de"
  shows "drop_cond hd' td tn de ne (int s) = Some (condp hd' td tn de ne s)"
  using assms by (auto simp: drop_cond_def condp_def vget_def)

lemma flag_child_ok:
  assumes "j < 8" "8 * T + 8 \<le> n" "length dd = n" "length cd = n" "length ne = n"
    "hd' \<longrightarrow> length de = n"
  shows "flag_child hd' td tn de ne cd p (int T) j (dd, ad)
         = Some (dd[8 * T + j := new_flag p (condp hd' td tn de ne (8 * T + j)) (dd ! (8 * T + j))],
                 ad \<and> \<not> (new_flag p (condp hd' td tn de ne (8 * T + j)) (dd ! (8 * T + j)) = kKeep
                          \<and> cd ! (8 * T + j) \<noteq> - 1))"
proof -
  define s where "s = 8 * T + j"
  define f where "f = new_flag p (condp hd' td tn de ne s) (dd ! s)"
  have s: "s < n" using assms(1,2) by (simp add: s_def)
  have idx: "int T * 8 + int j = int s" by (simp add: s_def)
  have c: "drop_cond hd' td tn de ne (int s) = Some (condp hd' td tn de ne s)"
    using drop_cond_ok[of s ne hd' de] s assms(5,6) by simp
  have "flag_child hd' td tn de ne cd p (int T) j (dd, ad)
         = Some (dd[s := f], ad \<and> \<not> (f = kKeep \<and> cd ! s \<noteq> - 1))"
    unfolding flag_child_def idx Let_def
    using s assms(3,4)
    by (auto simp: c vget_def vset_def f_def new_flag_def node_type_def)
  then show ?thesis by (simp add: s_def f_def)
qed

lemma flag_children_loop:
  assumes "m \<le> 8" "8 * T + 8 \<le> n" "length dd = n" "length cd = n" "length ne = n"
    "hd' \<longrightarrow> length de = n"
  shows "\<exists>dd' ad'. foldM (flag_child hd' td tn de ne cd p (int T)) [0..<m] (dd, ad) = Some (dd', ad')
     \<and> length dd' = n
     \<and> (\<forall>s. dd' ! s = (if 8 * T \<le> s \<and> s < 8 * T + m
                         then new_flag p (condp hd' td tn de ne s) (dd ! s) else dd ! s))
     \<and> (ad' \<longleftrightarrow> ad \<and> (\<forall>s. 8 * T \<le> s \<and> s < 8 * T + m \<longrightarrow> \<not> (dd' ! s = kKeep \<and> cd ! s \<noteq> - 1)))"
  using assms
proof (induction m)
  case 0 then show ?case by auto
next
  case (Suc m)
  then obtain d1 a1 where
    r: "foldM (flag_child hd' td tn de ne cd p (int T)) [0..<m] (dd, ad) = Some (d1, a1)"
    and l: "length d1 = n"
    and v: "\<forall>s. d1 ! s = (if 8 * T \<le> s \<and> s < 8 * T + m
                         then new_flag p (condp hd' td tn de ne s) (dd ! s) else dd ! s)"
    and a: "a1 \<longleftrightarrow> ad \<and> (\<forall>s. 8 * T \<le> s \<and> s < 8 * T + m \<longrightarrow> \<not> (d1 ! s = kKeep \<and> cd ! s \<noteq> - 1))"
    by auto
  let ?s = "8 * T + m"
  let ?f = "new_flag p (condp hd' td tn de ne ?s) (d1 ! ?s)"
  have m: "m < 8" using Suc.prems(1) by simp
  have st: "flag_child hd' td tn de ne cd p (int T) m (d1, a1)
         = Some (d1[?s := ?f], a1 \<and> \<not> (?f = kKeep \<and> cd ! ?s \<noteq> - 1))"
    by (rule flag_child_ok[OF m Suc.prems(2) l Suc.prems(4,5,6)])
  have sn: "?s < n" using m Suc.prems(2) by simp
  have old: "d1 ! ?s = dd ! ?s" using v by simp
  let ?d2 = "d1[?s := ?f]"
  have v2: "?d2 ! s = (if 8 * T \<le> s \<and> s < 8 * T + Suc m
                         then new_flag p (condp hd' td tn de ne s) (dd ! s) else dd ! s)" for s
  proof (cases "s = ?s")
    case True then show ?thesis using sn l old by simp
  next
    case False then show ?thesis using v by (auto simp: nth_list_update)
  qed
  have a2: "(a1 \<and> \<not> (?f = kKeep \<and> cd ! ?s \<noteq> - 1)) \<longleftrightarrow>
            ad \<and> (\<forall>s. 8 * T \<le> s \<and> s < 8 * T + Suc m \<longrightarrow> \<not> (?d2 ! s = kKeep \<and> cd ! s \<noteq> - 1))"
  proof -
    have e: "?d2 ! ?s = ?f" using sn l by simp
    have o: "?d2 ! s = d1 ! s" if "s \<noteq> ?s" for s using that by simp
    have "(\<forall>s. 8 * T \<le> s \<and> s < 8 * T + Suc m \<longrightarrow> \<not> (?d2 ! s = kKeep \<and> cd ! s \<noteq> - 1))
       \<longleftrightarrow> (\<forall>s. 8 * T \<le> s \<and> s < 8 * T + m \<longrightarrow> \<not> (d1 ! s = kKeep \<and> cd ! s \<noteq> - 1))
           \<and> \<not> (?f = kKeep \<and> cd ! ?s \<noteq> - 1)"
      (is "?L \<longleftrightarrow> ?R")
    proof
      assume L: ?L
      have "\<not> (?d2 ! ?s = kKeep \<and> cd ! ?s \<noteq> - 1)" using L by simp
      moreover have "\<not> (d1 ! s = kKeep \<and> cd ! s \<noteq> - 1)" if "8 * T \<le> s \<and> s < 8 * T + m" for s
        using L that o[of s] by auto
      ultimately show ?R using e by simp
    next
      assume R: ?R
      show ?L
      proof (intro allI impI)
        fix s assume "8 * T \<le> s \<and> s < 8 * T + Suc m"
        then consider "s = ?s" | "8 * T \<le> s \<and> s < 8 * T + m" by linarith
        then show "\<not> (?d2 ! s = kKeep \<and> cd ! s \<noteq> - 1)"
        proof cases
          case 1 then show ?thesis using R e by simp
        next
          case 2 then show ?thesis using R o[of s] by auto
        qed
      qed
    qed
    then show ?thesis using a by blast
  qed
  have "foldM (flag_child hd' td tn de ne cd p (int T)) [0..<Suc m] (dd, ad)
      = Some (?d2, a1 \<and> \<not> (?f = kKeep \<and> cd ! ?s \<noteq> - 1))"
    using r st by (simp add: foldM_append)
  then show ?case using l v2 a2 by (intro exI conjI) (assumption | simp)+
qed

lemma distinct_filter_nth:
  assumes "distinct (filter Q ys)" and "a < b" and "b < length ys"
    and "Q (ys ! a)" and "Q (ys ! b)"
  shows "ys ! a \<noteq> ys ! b"
  using assms
proof (induction ys arbitrary: a b)
  case Nil then show ?case by simp
next
  case (Cons y ys)
  from Cons.prems(2) obtain b' where b': "b = Suc b'" by (cases b) auto
  show ?case
  proof (cases a)
    case 0
    have "ys ! b' \<in> set (filter Q ys)" using Cons.prems(3,5) b' by simp
    moreover have "y \<notin> set (filter Q ys)" using Cons.prems(1,4) 0 by simp
    ultimately show ?thesis using 0 b' by auto
  next
    case (Suc a')
    have "distinct (filter Q ys)" using Cons.prems(1) by (simp split: if_splits)
    from Cons.IH[OF this, of a' b'] show ?thesis using Cons.prems Suc b' by simp
  qed
qed

lemma layer_wf_facts:
  assumes "layer_wf hd' np n de ne cd cp"
  shows "np \<le> length cp" "length cd = n" "length ne = n" "hd' \<longrightarrow> length de = n"
    "\<And>i. i < np \<Longrightarrow> cp ! i \<noteq> - 1 \<Longrightarrow> 0 \<le> cp ! i \<and> 8 * nat (cp ! i) + 8 \<le> n"
    "\<And>i i'. i < np \<Longrightarrow> i' < np \<Longrightarrow> i \<noteq> i' \<Longrightarrow> cp ! i \<noteq> - 1 \<Longrightarrow> cp ! i' \<noteq> - 1
        \<Longrightarrow> nat (cp ! i) \<noteq> nat (cp ! i')"
proof -
  show l: "np \<le> length cp" "length cd = n" "length ne = n" "hd' \<longrightarrow> length de = n"
    using assms by (simp_all add: layer_wf_def)
  show r: "0 \<le> cp ! i \<and> 8 * nat (cp ! i) + 8 \<le> n" if "i < np" "cp ! i \<noteq> - 1" for i
    using assms that by (simp add: layer_wf_def list_all_iff)
  have d: "distinct (filter (\<lambda>t. t \<noteq> - 1) (take np cp))" using assms by (simp add: layer_wf_def)
  show "nat (cp ! i) \<noteq> nat (cp ! i')"
    if h: "i < np" "i' < np" "i \<noteq> i'" "cp ! i \<noteq> - 1" "cp ! i' \<noteq> - 1" for i i'
  proof -
    have ne: "take np cp ! a \<noteq> take np cp ! b" if "a < b" "b < np" "cp ! a \<noteq> - 1" "cp ! b \<noteq> - 1" for a b
      using distinct_filter_nth[OF d, of a b] that l(1) by simp
    have "cp ! i \<noteq> cp ! i'"
    proof (cases "i < i'")
      case True then show ?thesis using ne[of i i'] h by simp
    next
      case False then have "i' < i" using h(3) by simp
      then show ?thesis using ne[of i' i] h by simp
    qed
    then show ?thesis using r[OF h(1,4)] r[OF h(2,5)] by (auto simp: nat_eq_iff)
  qed
qed

lemma flag_parents_loop:
  assumes wf: "layer_wf hd' np n de ne cd cp" and fp: "np \<le> length fp"
    and m: "m \<le> np" and len: "length dd = n"
  shows "\<exists>dd' ad'. foldM (flag_parent hd' td tn de ne cd cp fp) [0..<m] (dd, True) = Some (dd', ad')
     \<and> length dd' = n
     \<and> (\<forall>i<m. \<forall>s. blk cp i s \<longrightarrow> dd' ! s = new_flag (fp ! i) (condp hd' td tn de ne s) (dd ! s))
     \<and> (\<forall>s. (\<forall>i<m. \<not> blk cp i s) \<longrightarrow> dd' ! s = dd ! s)
     \<and> (ad' \<longleftrightarrow> (\<forall>i<m. \<forall>s. blk cp i s \<longrightarrow> \<not> (dd' ! s = kKeep \<and> cd ! s \<noteq> - 1)))"
  using m
proof (induction m)
  case 0 then show ?case using len by auto
next
  case (Suc m)
  note W = layer_wf_facts[OF wf]
  from Suc obtain d1 a1 where
    r: "foldM (flag_parent hd' td tn de ne cd cp fp) [0..<m] (dd, True) = Some (d1, a1)"
    and l: "length d1 = n"
    and v: "\<forall>i<m. \<forall>s. blk cp i s \<longrightarrow> d1 ! s = new_flag (fp ! i) (condp hd' td tn de ne s) (dd ! s)"
    and o: "\<forall>s. (\<forall>i<m. \<not> blk cp i s) \<longrightarrow> d1 ! s = dd ! s"
    and a: "a1 \<longleftrightarrow> (\<forall>i<m. \<forall>s. blk cp i s \<longrightarrow> \<not> (d1 ! s = kKeep \<and> cd ! s \<noteq> - 1))"
    by auto
  have mnp: "m < np" "m < length cp" "m < length fp" using Suc.prems W(1) fp by auto
  show ?case
  proof (cases "cp ! m = - 1")
    case True
    then have "flag_parent hd' td tn de ne cd cp fp m (d1, a1) = Some (d1, a1)"
      using mnp by (simp add: flag_parent_def vget_def node_type_def)
    then have f: "foldM (flag_parent hd' td tn de ne cd cp fp) [0..<Suc m] (dd, True) = Some (d1, a1)"
      using r by (simp add: foldM_append)
    have nb: "\<not> blk cp m s" for s using True by (simp add: blk_def)
    have x: "(\<forall>i<Suc m. Q i) \<longleftrightarrow> (\<forall>i<m. Q i) \<and> Q m" for Q by (auto simp: less_Suc_eq)
    show ?thesis
      using f l v o a nb by (intro exI[of _ d1] exI[of _ a1]) (simp add: x)
  next
    case False
    define T where "T = nat (cp ! m)"
    have T: "cp ! m = int T" "8 * T + 8 \<le> n" using W(5)[OF mnp(1) False] by (simp_all add: T_def)
    have bm: "blk cp m s \<longleftrightarrow> 8 * T \<le> s \<and> s < 8 * T + 8" for s
      using False by (simp add: blk_def T_def)
    have disj: "\<not> blk cp i s" if "i < m" "blk cp m s" for i s
    proof
      assume b: "blk cp i s"
      then have "cp ! i \<noteq> - 1" by (simp add: blk_def)
      from W(6)[OF _ mnp(1) _ this False] that(1) mnp(1) have "nat (cp ! i) \<noteq> T" by (simp add: T_def)
      then show False using b that(2) unfolding bm by (simp add: blk_def)
    qed
    from flag_children_loop[OF order_refl T(2) l W(2,3,4), of td tn "fp ! m" a1]
    obtain d2 a2 where
      c: "foldM (flag_child hd' td tn de ne cd (fp ! m) (int T)) [0..<8] (d1, a1) = Some (d2, a2)"
      and l2: "length d2 = n"
      and v2: "\<forall>s. d2 ! s = (if 8 * T \<le> s \<and> s < 8 * T + 8
                         then new_flag (fp ! m) (condp hd' td tn de ne s) (d1 ! s) else d1 ! s)"
      and a2: "a2 \<longleftrightarrow> a1 \<and> (\<forall>s. 8 * T \<le> s \<and> s < 8 * T + 8 \<longrightarrow> \<not> (d2 ! s = kKeep \<and> cd ! s \<noteq> - 1))"
      by blast
    have "flag_parent hd' td tn de ne cd cp fp m (d1, a1) = Some (d2, a2)"
      using mnp False c by (simp add: flag_parent_def vget_def node_type_def T(1))
    then have f: "foldM (flag_parent hd' td tn de ne cd cp fp) [0..<Suc m] (dd, True) = Some (d2, a2)"
      using r by (simp add: foldM_append)
    have old: "d1 ! s = dd ! s" if "blk cp m s" for s
      using o disj[OF _ that] by blast
    have keep: "d2 ! s = d1 ! s" if "\<not> blk cp m s" for s
      using that by (auto simp: v2[rule_format] bm)
    have new: "d2 ! s = new_flag (fp ! m) (condp hd' td tn de ne s) (dd ! s)" if "blk cp m s" for s
      using that old[OF that] by (auto simp: v2[rule_format] bm)
    have V: "\<forall>i<Suc m. \<forall>s. blk cp i s \<longrightarrow> d2 ! s = new_flag (fp ! i) (condp hd' td tn de ne s) (dd ! s)"
    proof (intro allI impI)
      fix i s assume i: "i < Suc m" and b: "blk cp i s"
      show "d2 ! s = new_flag (fp ! i) (condp hd' td tn de ne s) (dd ! s)"
      proof (cases "i = m")
        case True then show ?thesis using new b by simp
      next
        case False
        then have im: "i < m" using i by simp
        then have "\<not> blk cp m s" using disj b by blast
        then show ?thesis using keep v im b by simp
      qed
    qed
    have O: "\<forall>s. (\<forall>i<Suc m. \<not> blk cp i s) \<longrightarrow> d2 ! s = dd ! s"
      using keep o by (auto simp: less_Suc_eq)
    have A: "a2 \<longleftrightarrow> (\<forall>i<Suc m. \<forall>s. blk cp i s \<longrightarrow> \<not> (d2 ! s = kKeep \<and> cd ! s \<noteq> - 1))"
    proof -
      have e: "(\<forall>i<m. \<forall>s. blk cp i s \<longrightarrow> \<not> (d1 ! s = kKeep \<and> cd ! s \<noteq> - 1))
          \<longleftrightarrow> (\<forall>i<m. \<forall>s. blk cp i s \<longrightarrow> \<not> (d2 ! s = kKeep \<and> cd ! s \<noteq> - 1))"
        using keep disj by (metis)
      have "a2 \<longleftrightarrow> (\<forall>i<m. \<forall>s. blk cp i s \<longrightarrow> \<not> (d2 ! s = kKeep \<and> cd ! s \<noteq> - 1))
                 \<and> (\<forall>s. blk cp m s \<longrightarrow> \<not> (d2 ! s = kKeep \<and> cd ! s \<noteq> - 1))"
        unfolding a2 a e bm by simp
      then show ?thesis by (auto simp: less_Suc_eq)
    qed
    show ?thesis using f l2 V O A by (intro exI[of _ d2] exI[of _ a2]) simp
  qed
qed

lemma max_children_loop:
  assumes "m \<le> 8" "8 * T + 8 \<le> n" "length cd = n" "length ne = n" "maxinv ne C s0"
  shows "\<exists>s1. foldM (max_child ne cd (int T)) [0..<m] s0 = Some s1
     \<and> maxinv ne (C \<union> {s. 8 * T \<le> s \<and> s < 8 * T + m \<and> cd ! s \<noteq> - 1}) s1"
  using assms(1)
proof (induction m)
  case 0
  have e: "C \<union> {s. 8 * T \<le> s \<and> s < 8 * T + 0 \<and> cd ! s \<noteq> - 1} = C" by auto
  show ?case unfolding e using assms(5) by simp
next
  case (Suc m)
  let ?C = "C \<union> {s. 8 * T \<le> s \<and> s < 8 * T + m \<and> cd ! s \<noteq> - 1}"
  let ?C' = "C \<union> {s. 8 * T \<le> s \<and> s < 8 * T + Suc m \<and> cd ! s \<noteq> - 1}"
  from Suc obtain mi me where r: "foldM (max_child ne cd (int T)) [0..<m] s0 = Some (mi, me)"
    and inv: "maxinv ne ?C (mi, me)" by (cases "foldM (max_child ne cd (int T)) [0..<m] s0") auto
  define s where "s = 8 * T + m"
  let ?s = s
  have sn: "?s < n" using Suc.prems assms(2) by (simp add: s_def)
  have idx: "int T * 8 + int m = int ?s" by (simp add: s_def)
  have st: "max_child ne cd (int T) m (mi, me)
      = Some (if cd ! ?s \<noteq> - 1 \<and> ne ! ?s > me then (int ?s, ne ! ?s) else (mi, me))"
    unfolding max_child_def idx Let_def using sn assms(3,4)
    by (simp add: vget_def node_type_def)
  have C': "?C' = (if cd ! ?s \<noteq> - 1 then insert ?s ?C else ?C)"
    by (auto simp: less_Suc_eq s_def)
  have "maxinv ne ?C' (if cd ! ?s \<noteq> - 1 \<and> ne ! ?s > me then (int ?s, ne ! ?s) else (mi, me))"
  proof (cases "cd ! ?s \<noteq> - 1")
    case False
    then show ?thesis using inv C' by simp
  next
    case True
    then have C'': "?C' = insert ?s ?C" using C' by simp
    show ?thesis
    proof (cases "ne ! ?s > me")
      case T2: True
      have le: "\<forall>x\<in>?C. ne ! x \<le> me" using inv by (simp add: maxinv_def)
      have "ne ! x \<le> ne ! s" if "x \<in> ?C" for x
      proof -
        from le that have "ne ! x \<le> me" by (rule bspec)
        with T2 show ?thesis by linarith
      qed
      then have "\<forall>s\<in>insert ?s ?C. ne ! s \<le> ne ! ?s" by blast
      moreover have "- 1 \<le> ne ! ?s" using inv T2 by (auto simp: maxinv_def)
      ultimately show ?thesis using True T2 unfolding C'' by (simp add: maxinv_def)
    next
      case F2: False
      then have "\<forall>s\<in>insert ?s ?C. ne ! s \<le> me" using inv by (auto simp: maxinv_def)
      then show ?thesis using True F2 inv unfolding C'' by (auto simp: maxinv_def)
    qed
  qed
  then show ?case using r st by (simp add: foldM_append)
qed

lemma max_parents_loop:
  assumes wf: "layer_wf hd' np n de ne cd cp" and fp: "np \<le> length fp" and m: "m \<le> np"
  shows "\<exists>s1. foldM (max_parent ne cd cp fp) [0..<m] (0, - 1) = Some s1
     \<and> maxinv ne (cand cp fp cd m) s1"
  using m
proof (induction m)
  case 0 then show ?case by (simp add: maxinv_def cand_def)
next
  case (Suc m)
  note W = layer_wf_facts[OF wf]
  from Suc obtain s1 where r: "foldM (max_parent ne cd cp fp) [0..<m] (0, - 1) = Some s1"
    and inv: "maxinv ne (cand cp fp cd m) s1" by auto
  have mnp: "m < np" "m < length cp" "m < length fp" using Suc.prems W(1) fp by auto
  have cs: "cand cp fp cd (Suc m)
      = cand cp fp cd m \<union> {s. blk cp m s \<and> fp ! m = kKeep \<and> cd ! s \<noteq> - 1}"
    by (auto simp: cand_def less_Suc_eq)
  show ?case
  proof (cases "cp ! m = - 1 \<or> fp ! m \<noteq> kKeep")
    case True
    then have "max_parent ne cd cp fp m s1 = Some s1"
      using mnp by (auto simp: max_parent_def vget_def node_type_def)
    moreover have "cand cp fp cd (Suc m) = cand cp fp cd m"
      using True unfolding cs by (auto simp: blk_def)
    ultimately show ?thesis using r inv by (simp add: foldM_append)
  next
    case False
    define T where "T = nat (cp ! m)"
    have T: "cp ! m = int T" "8 * T + 8 \<le> n" using W(5)[OF mnp(1)] False by (simp_all add: T_def)
    from max_children_loop[OF order_refl T(2) W(2,3) inv] obtain s2 where
      c: "foldM (max_child ne cd (int T)) [0..<8] s1 = Some s2"
      and i2: "maxinv ne (cand cp fp cd m \<union> {s. 8 * T \<le> s \<and> s < 8 * T + 8 \<and> cd ! s \<noteq> - 1}) s2"
      by blast
    have "max_parent ne cd cp fp m s1 = Some s2"
      using mnp False c by (simp add: max_parent_def vget_def node_type_def T(1))
    moreover have "cand cp fp cd (Suc m)
        = cand cp fp cd m \<union> {s. 8 * T \<le> s \<and> s < 8 * T + 8 \<and> cd ! s \<noteq> - 1}"
      unfolding cs using False by (auto simp: blk_def T_def)
    ultimately show ?thesis using r i2 by (simp add: foldM_append)
  qed
qed

lemma cand_in_range:
  assumes wf: "layer_wf hd' np n de ne cd cp" and "s \<in> cand cp fp cd np"
  shows "s < n"
proof -
  from assms(2) obtain i where "i < np" "blk cp i s" by (auto simp: cand_def)
  then show ?thesis using layer_wf_facts(5)[OF wf, of i] by (auto simp: blk_def)
qed

lemma restore_keep_ok:
  assumes wf: "layer_wf hd' np n de ne cd cp" and fp: "np \<le> length fp" and len: "length dd = n"
    and ex: "\<exists>s\<in>cand cp fp cd np. ne ! s > - 1"
  shows "\<exists>m. restore_keep np ne cd cp fp dd = Some (dd[m := kKeep])
     \<and> m \<in> cand cp fp cd np \<and> m < n \<and> (\<forall>s\<in>cand cp fp cd np. ne ! s \<le> ne ! m)"
proof -
  from max_parents_loop[OF wf fp order_refl] obtain mi me where
    r: "foldM (max_parent ne cd cp fp) [0..<np] (0, - 1) = Some (mi, me)"
    and inv: "maxinv ne (cand cp fp cd np) (mi, me)" by (metis surj_pair)
  from ex obtain s where s: "s \<in> cand cp fp cd np" "ne ! s > - 1" by blast
  then have "me > - 1" using inv by (fastforce simp: maxinv_def)
  then have m: "0 \<le> mi" "nat mi \<in> cand cp fp cd np" "me = ne ! nat mi"
    using inv by (auto simp: maxinv_def)
  have mx: "\<forall>s\<in>cand cp fp cd np. ne ! s \<le> ne ! nat mi" using inv m(3) by (auto simp: maxinv_def)
  have rng: "nat mi < n" using cand_in_range[OF wf m(2)] .
  have "restore_keep np ne cd cp fp dd = Some (dd[nat mi := kKeep])"
    using r m(1) rng len by (simp add: restore_keep_def iset_def vset_def)
  then show ?thesis using m(2) mx rng by blast
qed

lemma drop_layer_ok:
  assumes wf: "layer_wf hd' np n de ne cd cp" and fp: "np \<le> length fp"
    and ex: "\<exists>s\<in>cand cp fp cd np. ne ! s > - 1"
  shows "\<exists>pass all_drop dl.
       foldM (flag_parent hd' td tn de ne cd cp fp) [0..<np] (replicate n kKeep, True)
         = Some (pass, all_drop)
     \<and> drop_layer hd' td tn np de ne cd cp fp (replicate n kKeep) = Some dl
     \<and> length pass = n \<and> length dl = n
     \<and> (\<forall>i<np. \<forall>s. blk cp i s \<longrightarrow> pass ! s = new_flag (fp ! i) (condp hd' td tn de ne s) kKeep)
     \<and> (all_drop \<longleftrightarrow> (\<forall>i<np. \<forall>s. blk cp i s \<longrightarrow> \<not> (pass ! s = kKeep \<and> cd ! s \<noteq> - 1)))
     \<and> (if all_drop
         then \<exists>m\<in>cand cp fp cd np. dl = pass[m := kKeep] \<and> (\<forall>s\<in>cand cp fp cd np. ne ! s \<le> ne ! m)
         else dl = pass)
     \<and> (\<exists>s<n. dl ! s = kKeep \<and> cd ! s \<noteq> - 1)"
proof -
  have l0: "length (replicate n kKeep) = n" by simp
  from flag_parents_loop[OF wf fp order_refl l0, of td tn] obtain pass ad where
    p: "foldM (flag_parent hd' td tn de ne cd cp fp) [0..<np] (replicate n kKeep, True) = Some (pass, ad)"
    and l: "length pass = n"
    and v: "\<forall>i<np. \<forall>s. blk cp i s \<longrightarrow>
              pass ! s = new_flag (fp ! i) (condp hd' td tn de ne s) (replicate n kKeep ! s)"
    and a: "ad \<longleftrightarrow> (\<forall>i<np. \<forall>s. blk cp i s \<longrightarrow> \<not> (pass ! s = kKeep \<and> cd ! s \<noteq> - 1))"
    by blast
  have inr: "s < n" if "i < np" "blk cp i s" for i s
    using layer_wf_facts(5)[OF wf, of i] that by (auto simp: blk_def)
  have v': "\<forall>i<np. \<forall>s. blk cp i s \<longrightarrow> pass ! s = new_flag (fp ! i) (condp hd' td tn de ne s) kKeep"
    using v inr by auto
  show ?thesis
  proof (cases ad)
    case True
    from restore_keep_ok[OF wf fp l ex] obtain m where
      r: "restore_keep np ne cd cp fp pass = Some (pass[m := kKeep])"
      and m: "m \<in> cand cp fp cd np" "m < n" "\<forall>s\<in>cand cp fp cd np. ne ! s \<le> ne ! m" by blast
    have dl: "drop_layer hd' td tn np de ne cd cp fp (replicate n kKeep) = Some (pass[m := kKeep])"
      using p True r by (simp add: drop_layer_def)
    have "cd ! m \<noteq> - 1" using m(1) by (auto simp: cand_def)
    then have e: "\<exists>s<n. (pass[m := kKeep]) ! s = kKeep \<and> cd ! s \<noteq> - 1"
      using m(2) l by (intro exI[of _ m]) simp
    have r3: "if True then \<exists>m'\<in>cand cp fp cd np. pass[m := kKeep] = pass[m' := kKeep]
         \<and> (\<forall>s\<in>cand cp fp cd np. ne ! s \<le> ne ! m') else pass[m := kKeep] = pass"
      using m(1,3) by auto
    have l2: "length (pass[m := kKeep]) = n" using l by simp
    have pT: "foldM (flag_parent hd' td tn de ne cd cp fp) [0..<np] (replicate n kKeep, True)
       = Some (pass, True)" using p True by simp
    have aT: "True = (\<forall>i<np. \<forall>s. blk cp i s \<longrightarrow> \<not> (pass ! s = kKeep \<and> cd ! s \<noteq> - 1))"
      using a True by simp
    show ?thesis
      apply (rule exI[of _ pass], rule exI[of _ True], rule exI[of _ "pass[m := kKeep]"])
      using pT dl l l2 v' aT r3 e apply (intro conjI) apply assumption+ done
  next
    case False
    have dl: "drop_layer hd' td tn np de ne cd cp fp (replicate n kKeep) = Some pass"
      using p False by (simp add: drop_layer_def)
    from False a obtain i s where "i < np" "blk cp i s" "pass ! s = kKeep" "cd ! s \<noteq> - 1" by blast
    then have e: "\<exists>s<n. pass ! s = kKeep \<and> cd ! s \<noteq> - 1" using inr by blast
    have pF: "foldM (flag_parent hd' td tn de ne cd cp fp) [0..<np] (replicate n kKeep, True)
       = Some (pass, False)" using p False by simp
    have aF: "False = (\<forall>i<np. \<forall>s. blk cp i s \<longrightarrow> \<not> (pass ! s = kKeep \<and> cd ! s \<noteq> - 1))"
      using a False by simp
    have r3: "if False then \<exists>m'\<in>cand cp fp cd np. pass = pass[m' := kKeep]
         \<and> (\<forall>s\<in>cand cp fp cd np. ne ! s \<le> ne ! m') else pass = pass" by simp
    show ?thesis
      apply (rule exI[of _ pass], rule exI[of _ False], rule exI[of _ pass])
      using pF dl l l v' aF r3 e apply (intro conjI) apply assumption+ done
  qed
qed






lemma trim_wf_facts:
  assumes "trim_wf hd' dp adp nn de ne ks ch"
  shows "1 \<le> adp" "adp \<le> dp" "length nn = dp + 1" "length de = dp + 1" "length ne = dp + 1"
    "length ks = dp + 1" "length ch = dp + 1"
    "\<And>d. d \<le> dp \<Longrightarrow> length (ks ! d) = nn ! d"
    "\<And>d. d \<le> dp \<Longrightarrow> length (ch ! d) = nn ! d"
    "\<And>d. adp \<le> d \<Longrightarrow> d \<le> dp \<Longrightarrow>
        layer_wf hd' (nn ! (d - 1)) (nn ! d) (de ! d) (ne ! d) (ch ! d) (ch ! (d - 1))"
    "\<And>d. adp \<le> d \<Longrightarrow> d \<le> dp \<Longrightarrow> internal_err_ok (nn ! d) (ne ! d) (ch ! d)"
    "\<And>d. adp < d \<Longrightarrow> d \<le> dp \<Longrightarrow> parents_nonempty (nn ! (d - 1)) (ch ! d) (ch ! (d - 1))"
    "\<exists>i<nn ! (adp - 1). ch ! (adp - 1) ! i \<noteq> - 1
        \<and> (\<exists>j<8. ch ! adp ! (8 * nat (ch ! (adp - 1) ! i) + j) \<noteq> - 1)"
  using assms unfolding trim_wf_def list_all_iff list_ex_iff set_upt atLeastLessThan_iff Ball_def Bex_def
  by (simp_all add: less_Suc_eq_le Suc_le_eq)

lemma parents_nonempty_child:
  assumes "parents_nonempty np cd cp" "i < np" "cp ! i \<noteq> - 1"
  shows "\<exists>j<8. cd ! (8 * nat (cp ! i) + j) \<noteq> - 1"
proof -
  have "i \<in> set [0..<np]" using assms(2) by simp
  then have "list_ex (\<lambda>j. cd ! (8 * nat (cp ! i) + j) \<noteq> - 1) [0..<8]"
    using assms(1,3) unfolding parents_nonempty_def list_all_iff by blast
  then obtain j where "j \<in> set [0..<8]" "cd ! (8 * nat (cp ! i) + j) \<noteq> - 1"
    unfolding list_ex_iff by blast
  then show ?thesis by (intro exI[of _ j]) simp
qed

lemma cand_exists:
  assumes wf: "layer_wf hd' np n de ne cd cp" and ie: "internal_err_ok n ne cd"
    and i: "i < np" "cp ! i \<noteq> - 1" "fp ! i = kKeep"
    and j: "j < 8" "cd ! (8 * nat (cp ! i) + j) \<noteq> - 1"
  shows "\<exists>s\<in>cand cp fp cd np. - 1 < ne ! s"
proof -
  let ?s = "8 * nat (cp ! i) + j"
  have b: "blk cp i ?s" using i(2) j(1) by (simp add: blk_def)
  have "?s < n" using layer_wf_facts(5)[OF wf i(1)] i(2) j(1) by simp
  then have "- 1 < ne ! ?s" using ie j(2) unfolding internal_err_ok_def list_all_iff by simp
  moreover have "?s \<in> cand cp fp cd np" using b i(1,3) j(2) unfolding cand_def by blast
  ultimately show ?thesis by blast
qed

lemma init_drop_loop:
  "k \<le> length nn \<Longrightarrow>
   foldM (init_drop nn) [0..<k] [] = Some (map (\<lambda>d. replicate (nn ! d) kKeep) [0..<k])"
  by (induction k) (simp_all add: foldM_append init_drop_def vget_def)

lemma keep_parent_child:
  assumes wf: "trim_wf hd' dp adp nn de ne ks ch" and n: "adp \<le> n" "n \<le> dp"
    and top: "D ! (adp - 1) = replicate (nn ! (adp - 1)) kKeep"
    and prev: "adp < n \<Longrightarrow> \<exists>s<nn ! (n - 1). D ! (n - 1) ! s = kKeep \<and> ch ! (n - 1) ! s \<noteq> - 1"
  shows "\<exists>i<nn ! (n - 1). D ! (n - 1) ! i = kKeep \<and> ch ! (n - 1) ! i \<noteq> - 1
     \<and> (\<exists>j<8. ch ! n ! (8 * nat (ch ! (n - 1) ! i) + j) \<noteq> - 1)"
proof (cases "n = adp")
  case True
  from trim_wf_facts(13)[OF wf] obtain i where
    i: "i < nn ! (adp - 1)" "ch ! (adp - 1) ! i \<noteq> - 1"
      "\<exists>j<8. ch ! adp ! (8 * nat (ch ! (adp - 1) ! i) + j) \<noteq> - 1" by blast
  have "D ! (adp - 1) ! i = kKeep" using top i(1) by simp
  then show ?thesis using i True by blast
next
  case False
  then have a: "adp < n" using n by simp
  from prev[OF a] obtain s where s: "s < nn ! (n - 1)" "D ! (n - 1) ! s = kKeep"
    "ch ! (n - 1) ! s \<noteq> - 1" by blast
  from parents_nonempty_child[OF trim_wf_facts(12)[OF wf a n(2)] s(1,3)] s show ?thesis by blast
qed

lemma drop_step_ok:
  assumes wf: "trim_wf hd' dp adp nn de ne ks ch" and n: "adp \<le> n" "n \<le> dp"
    and lD: "length D = dp + 1" and ln: "length (D ! (n - 1)) = nn ! (n - 1)"
    and Dn: "D ! n = replicate (nn ! n) kKeep"
    and kp: "\<exists>i<nn ! (n - 1). D ! (n - 1) ! i = kKeep \<and> ch ! (n - 1) ! i \<noteq> - 1
               \<and> (\<exists>j<8. ch ! n ! (8 * nat (ch ! (n - 1) ! i) + j) \<noteq> - 1)"
  shows "\<exists>dl. drop_step hd' td tn nn de ne ch n D = Some (D[n := dl])
     \<and> drop_layer hd' td tn (nn ! (n - 1)) (de ! n) (ne ! n) (ch ! n) (ch ! (n - 1)) (D ! (n - 1))
          (replicate (nn ! n) kKeep) = Some dl
     \<and> length dl = nn ! n \<and> (\<exists>s<nn ! n. dl ! s = kKeep \<and> ch ! n ! s \<noteq> - 1)"
proof -
  note W = trim_wf_facts[OF wf]
  have lw: "layer_wf hd' (nn ! (n - 1)) (nn ! n) (de ! n) (ne ! n) (ch ! n) (ch ! (n - 1))"
    using W(10)[OF n] .
  from kp obtain i j where i: "i < nn ! (n - 1)" "D ! (n - 1) ! i = kKeep" "ch ! (n - 1) ! i \<noteq> - 1"
    and j: "j < 8" "ch ! n ! (8 * nat (ch ! (n - 1) ! i) + j) \<noteq> - 1"
    by blast
  have ex: "\<exists>s\<in>cand (ch ! (n - 1)) (D ! (n - 1)) (ch ! n) (nn ! (n - 1)). - 1 < ne ! n ! s"
    using cand_exists[OF lw W(11)[OF n] i(1) i(3) i(2) j] .
  have fp: "nn ! (n - 1) \<le> length (D ! (n - 1))" using ln by simp
  from drop_layer_ok[OF lw fp ex, of td tn] obtain dl where
    dl: "drop_layer hd' td tn (nn ! (n - 1)) (de ! n) (ne ! n) (ch ! n) (ch ! (n - 1)) (D ! (n - 1))
          (replicate (nn ! n) kKeep) = Some dl"
    and l: "length dl = nn ! n" and e: "\<exists>s<nn ! n. dl ! s = kKeep \<and> ch ! n ! s \<noteq> - 1"
    by blast
  have n0: "n \<noteq> 0" "n - 1 < dp + 1" "n < dp + 1" using W(1) n by simp_all
  have "drop_step hd' td tn nn de ne ch n D = Some (D[n := dl])"
    unfolding drop_step_def using n0 W(3,4,5,7) lD dl Dn
    by (simp add: vget_def vset_def)
  then show ?thesis using dl l e by blast
qed

lemma drop_loop:
  assumes wf: "trim_wf hd' dp adp nn de ne ks ch" and k: "adp \<le> k" "k \<le> dp + 1"
  shows "\<exists>D. foldM (drop_step hd' td tn nn de ne ch) [adp..<k]
               (map (\<lambda>d. replicate (nn ! d) kKeep) [0..<dp + 1]) = Some D
     \<and> length D = dp + 1
     \<and> (\<forall>d\<le>dp. length (D ! d) = nn ! d)
     \<and> (\<forall>d\<le>dp. d < adp \<or> k \<le> d \<longrightarrow> D ! d = replicate (nn ! d) kKeep)
     \<and> (\<forall>d. adp \<le> d \<and> d < k \<longrightarrow>
          drop_layer hd' td tn (nn ! (d - 1)) (de ! d) (ne ! d) (ch ! d) (ch ! (d - 1)) (D ! (d - 1))
            (replicate (nn ! d) kKeep) = Some (D ! d)
          \<and> (\<exists>s<nn ! d. D ! d ! s = kKeep \<and> ch ! d ! s \<noteq> - 1))"
  using k(1)
proof (induction rule: dec_induct)
  case base
  have "\<forall>d\<le>dp. map (\<lambda>d. replicate (nn ! d) kKeep) [0..<dp + 1] ! d = replicate (nn ! d) kKeep"
    by (auto simp: nth_map_upt simp del: upt_Suc)
  then show ?case by (auto simp del: upt_Suc)
next
  case (step n)
  note W = trim_wf_facts[OF wf]
  let ?I = "map (\<lambda>d. replicate (nn ! d) kKeep) [0..<dp + 1]"
  from step.IH obtain D where
    r: "foldM (drop_step hd' td tn nn de ne ch) [adp..<n] ?I = Some D"
    and lD: "length D = dp + 1"
    and ls: "\<forall>d\<le>dp. length (D ! d) = nn ! d"
    and un: "\<forall>d\<le>dp. d < adp \<or> n \<le> d \<longrightarrow> D ! d = replicate (nn ! d) kKeep"
    and dn: "\<forall>d. adp \<le> d \<and> d < n \<longrightarrow>
          drop_layer hd' td tn (nn ! (d - 1)) (de ! d) (ne ! d) (ch ! d) (ch ! (d - 1)) (D ! (d - 1))
            (replicate (nn ! d) kKeep) = Some (D ! d)
          \<and> (\<exists>s<nn ! d. D ! d ! s = kKeep \<and> ch ! d ! s \<noteq> - 1)"
    by blast
  have n: "adp \<le> n" "n \<le> dp" using step.hyps k(2) by simp_all
  have n1: "n - 1 \<le> dp" "n \<noteq> 0" using n W(1) by simp_all
  have top: "D ! (adp - 1) = replicate (nn ! (adp - 1)) kKeep" using un n W(1) by simp
  have prev: "\<exists>s<nn ! (n - 1). D ! (n - 1) ! s = kKeep \<and> ch ! (n - 1) ! s \<noteq> - 1" if "adp < n"
  proof -
    have "adp \<le> n - 1 \<and> n - 1 < n" using that by auto
    then show ?thesis using dn by blast
  qed
  note kp = keep_parent_child[OF wf n top prev]
  from drop_step_ok[OF wf n lD ls[rule_format, OF n1(1)] un[rule_format, OF n(2)] kp, of td tn]
  obtain dl where
    st: "drop_step hd' td tn nn de ne ch n D = Some (D[n := dl])"
    and dl: "drop_layer hd' td tn (nn ! (n - 1)) (de ! n) (ne ! n) (ch ! n) (ch ! (n - 1)) (D ! (n - 1))
          (replicate (nn ! n) kKeep) = Some dl"
    and l: "length dl = nn ! n" and e: "\<exists>s<nn ! n. dl ! s = kKeep \<and> ch ! n ! s \<noteq> - 1"
    by blast
  let ?D = "D[n := dl]"
  have up: "[adp..<Suc n] = [adp..<n] @ [n]" using n(1) by simp
  have f: "foldM (drop_step hd' td tn nn de ne ch) [adp..<Suc n] ?I = Some ?D"
    unfolding up using r st by (simp add: foldM_append)
  have nth: "?D ! n = dl" "\<And>d. d \<noteq> n \<Longrightarrow> ?D ! d = D ! d" using lD n(2) by simp_all
  have a: "\<forall>d\<le>dp. length (?D ! d) = nn ! d"
    using ls l nth by (metis)
  have b: "\<forall>d\<le>dp. d < adp \<or> Suc n \<le> d \<longrightarrow> ?D ! d = replicate (nn ! d) kKeep"
    using un n(1) by (auto simp: nth_list_update)
  have c: "drop_layer hd' td tn (nn ! (d - 1)) (de ! d) (ne ! d) (ch ! d) (ch ! (d - 1)) (?D ! (d - 1))
            (replicate (nn ! d) kKeep) = Some (?D ! d)
          \<and> (\<exists>s<nn ! d. ?D ! d ! s = kKeep \<and> ch ! d ! s \<noteq> - 1)"
    if d: "adp \<le> d \<and> d < Suc n" for d
  proof (cases "d = n")
    case True
    have "?D ! (d - 1) = D ! (n - 1)" using True n1(2) by (intro nth(2)[THEN trans]) simp_all
    then show ?thesis using True nth(1) dl e by simp
  next
    case False
    then have dd: "adp \<le> d \<and> d < n" using d by simp
    have ne: "n \<noteq> d - 1" "n \<noteq> d" using dd by arith+
    have "?D ! (d - 1) = D ! (d - 1)" by (rule nth_list_update_neq[OF ne(1)])
    moreover have "?D ! d = D ! d" by (rule nth_list_update_neq[OF ne(2)])
    ultimately have "?D ! (d - 1) = D ! (d - 1)" "?D ! d = D ! d" by blast+
    then show ?thesis using dn[rule_format, OF dd] by simp
  qed
  show ?case using f lD a b c by (intro exI[of _ ?D]) simp
qed




lemma generate_drop_result:
  assumes wf: "trim_wf hd' dp adp nn de ne ks ch"
  shows "\<exists>D. generate_drop hd' td tn dp adp nn de ne ch = Some D
     \<and> length D = dp + 1
     \<and> (\<forall>d\<le>dp. length (D ! d) = nn ! d)
     \<and> (\<forall>d<adp. D ! d = replicate (nn ! d) kKeep)
     \<and> (\<forall>d. adp \<le> d \<and> d \<le> dp \<longrightarrow>
          (\<exists>s<nn ! d. D ! d ! s = kKeep \<and> ch ! d ! s \<noteq> - 1)
          \<and> (\<exists>pass all_drop.
                foldM (flag_parent hd' td tn (de ! d) (ne ! d) (ch ! d) (ch ! (d - 1)) (D ! (d - 1)))
                  [0..<nn ! (d - 1)] (replicate (nn ! d) kKeep, True) = Some (pass, all_drop)
              \<and> length pass = nn ! d
              \<and> (\<forall>i<nn ! (d - 1). \<forall>s. blk (ch ! (d - 1)) i s \<longrightarrow>
                     pass ! s = new_flag (D ! (d - 1) ! i) (condp hd' td tn (de ! d) (ne ! d) s) kKeep)
              \<and> (all_drop \<longleftrightarrow> (\<forall>i<nn ! (d - 1). \<forall>s. blk (ch ! (d - 1)) i s \<longrightarrow>
                       \<not> (pass ! s = kKeep \<and> ch ! d ! s \<noteq> - 1)))
              \<and> (if all_drop
                  then \<exists>m\<in>cand (ch ! (d - 1)) (D ! (d - 1)) (ch ! d) (nn ! (d - 1)).
                         D ! d = pass[m := kKeep] \<and> m < nn ! d
                       \<and> (\<forall>s\<in>cand (ch ! (d - 1)) (D ! (d - 1)) (ch ! d) (nn ! (d - 1)).
                             ne ! d ! s \<le> ne ! d ! m)
                  else D ! d = pass)))"
proof -
  note W = trim_wf_facts[OF wf]
  let ?I = "map (\<lambda>d. replicate (nn ! d) kKeep) [0..<dp + 1]"
  have a1: "adp \<le> dp + 1" using W(2) by simp
  from drop_loop[OF wf a1 order_refl, of td tn] obtain D where
    r: "foldM (drop_step hd' td tn nn de ne ch) [adp..<dp + 1] ?I = Some D"
    and lD: "length D = dp + 1"
    and ls: "\<forall>d\<le>dp. length (D ! d) = nn ! d"
    and un: "\<forall>d\<le>dp. d < adp \<or> dp + 1 \<le> d \<longrightarrow> D ! d = replicate (nn ! d) kKeep"
    and dn: "\<forall>d. adp \<le> d \<and> d < dp + 1 \<longrightarrow>
          drop_layer hd' td tn (nn ! (d - 1)) (de ! d) (ne ! d) (ch ! d)
            (ch ! (d - 1)) (D ! (d - 1)) (replicate (nn ! d) kKeep) = Some (D ! d)
          \<and> (\<exists>s<nn ! d. D ! d ! s = kKeep \<and> ch ! d ! s \<noteq> - 1)"
    by blast
  have init: "foldM (init_drop nn) [0..<dp + 1] [] = Some ?I"
    using init_drop_loop[of "dp + 1" nn] W(3) by simp
  have gd: "generate_drop hd' td tn dp adp nn de ne ch = Some D"
    unfolding generate_drop_def init using r by simp
  have kp: "\<forall>d. adp \<le> d \<and> d \<le> dp \<longrightarrow> (\<exists>s<nn ! d. D ! d ! s = kKeep \<and> ch ! d ! s \<noteq> - 1)"
    using dn by (simp add: less_Suc_eq_le)
  have top: "\<forall>d<adp. D ! d = replicate (nn ! d) kKeep" using un W(2) by auto
  have main: "(\<exists>s<nn ! d. D ! d ! s = kKeep \<and> ch ! d ! s \<noteq> - 1)
          \<and> (\<exists>pass all_drop.
                foldM (flag_parent hd' td tn (de ! d) (ne ! d) (ch ! d) (ch ! (d - 1)) (D ! (d - 1)))
                  [0..<nn ! (d - 1)] (replicate (nn ! d) kKeep, True) = Some (pass, all_drop)
              \<and> length pass = nn ! d
              \<and> (\<forall>i<nn ! (d - 1). \<forall>s. blk (ch ! (d - 1)) i s \<longrightarrow>
                     pass ! s = new_flag (D ! (d - 1) ! i) (condp hd' td tn (de ! d) (ne ! d) s) kKeep)
              \<and> (all_drop \<longleftrightarrow> (\<forall>i<nn ! (d - 1). \<forall>s. blk (ch ! (d - 1)) i s \<longrightarrow>
                       \<not> (pass ! s = kKeep \<and> ch ! d ! s \<noteq> - 1)))
              \<and> (if all_drop
                  then \<exists>m\<in>cand (ch ! (d - 1)) (D ! (d - 1)) (ch ! d) (nn ! (d - 1)).
                         D ! d = pass[m := kKeep] \<and> m < nn ! d
                       \<and> (\<forall>s\<in>cand (ch ! (d - 1)) (D ! (d - 1)) (ch ! d) (nn ! (d - 1)).
                             ne ! d ! s \<le> ne ! d ! m)
                  else D ! d = pass))"
    if d: "adp \<le> d \<and> d \<le> dp" for d
  proof -
    have d': "adp \<le> d \<and> d < dp + 1" "adp \<le> d" "d \<le> dp" "d - 1 \<le> dp" using d by auto
    have lw: "layer_wf hd' (nn ! (d - 1)) (nn ! d) (de ! d) (ne ! d) (ch ! d) (ch ! (d - 1))"
      using W(10)[OF d'(2,3)] .
    have tp: "D ! (adp - 1) = replicate (nn ! (adp - 1)) kKeep" using un W(1,2) by simp
    have prev: "\<exists>s<nn ! (d - 1). D ! (d - 1) ! s = kKeep \<and> ch ! (d - 1) ! s \<noteq> - 1" if "adp < d"
    proof -
      have "adp \<le> d - 1 \<and> d - 1 \<le> dp" using that d by auto
      then show ?thesis using kp by blast
    qed
    from keep_parent_child[OF wf d'(2,3) tp prev] obtain i j where
      i: "i < nn ! (d - 1)" "D ! (d - 1) ! i = kKeep" "ch ! (d - 1) ! i \<noteq> - 1"
      and j: "j < 8" "ch ! d ! (8 * nat (ch ! (d - 1) ! i) + j) \<noteq> - 1"
      by blast
    have ex: "\<exists>s\<in>cand (ch ! (d - 1)) (D ! (d - 1)) (ch ! d) (nn ! (d - 1)). - 1 < ne ! d ! s"
      using cand_exists[OF lw W(11)[OF d'(2,3)] i(1) i(3) i(2) j] .
    have fp: "nn ! (d - 1) \<le> length (D ! (d - 1))" using ls d'(4) by simp
    from drop_layer_ok[OF lw fp ex, of td tn] obtain pass ad dl where
      p: "foldM (flag_parent hd' td tn (de ! d) (ne ! d) (ch ! d) (ch ! (d - 1)) (D ! (d - 1)))
                  [0..<nn ! (d - 1)] (replicate (nn ! d) kKeep, True) = Some (pass, ad)"
      and dl: "drop_layer hd' td tn (nn ! (d - 1)) (de ! d) (ne ! d) (ch ! d)
            (ch ! (d - 1)) (D ! (d - 1)) (replicate (nn ! d) kKeep) = Some dl"
      and lp: "length pass = nn ! d"
      and v: "\<forall>i<nn ! (d - 1). \<forall>s. blk (ch ! (d - 1)) i s \<longrightarrow>
                     pass ! s = new_flag (D ! (d - 1) ! i) (condp hd' td tn (de ! d) (ne ! d) s) kKeep"
      and a: "ad \<longleftrightarrow> (\<forall>i<nn ! (d - 1). \<forall>s. blk (ch ! (d - 1)) i s \<longrightarrow>
                       \<not> (pass ! s = kKeep \<and> ch ! d ! s \<noteq> - 1))"
      and rs: "if ad
         then \<exists>m\<in>cand (ch ! (d - 1)) (D ! (d - 1)) (ch ! d) (nn ! (d - 1)). dl = pass[m := kKeep]
                \<and> (\<forall>s\<in>cand (ch ! (d - 1)) (D ! (d - 1)) (ch ! d) (nn ! (d - 1)).
                       ne ! d ! s \<le> ne ! d ! m)
         else dl = pass"
      by blast
    have e: "dl = D ! d" using dl dn[rule_format, OF d'(1)] by simp
    have rs': "if ad
         then \<exists>m\<in>cand (ch ! (d - 1)) (D ! (d - 1)) (ch ! d) (nn ! (d - 1)).
                D ! d = pass[m := kKeep] \<and> m < nn ! d
                \<and> (\<forall>s\<in>cand (ch ! (d - 1)) (D ! (d - 1)) (ch ! d) (nn ! (d - 1)).
                       ne ! d ! s \<le> ne ! d ! m)
         else D ! d = pass"
      using rs cand_in_range[OF lw] unfolding e by (cases ad) auto
    show ?thesis using kp[rule_format, OF d] p lp v a rs' by blast
  qed
  show ?thesis using gd lD ls top main by blast
qed

text \<open>
  C5. In \<open>trim_octree\<close> on a well-formed octree the flag table is produced, the layers
  above \<open>depth_adp\<close> keep the flag \<open>kKeep\<close>, and for every layer \<open>d\<close> from \<open>depth_adp\<close>
  to \<open>depth\<close> the first pass over layer \<open>d\<close> (started from all \<open>kKeep\<close>, with the
  flags of layer \<open>d - 1\<close> as they are in the end) gives every child slot
  \<open>idx = 8 t + j\<close> of an internal parent \<open>i\<close>, \<open>t = children[d-1][i]\<close>, the flag:
  \<open>kDropChildren\<close> if the parent's flag is \<open>kKeep\<close> and \<open>normal_err[d][idx] < th_norm\<close> and
  (\<open>has_dis\<close> is false or \<open>distance_err[d][idx] < th_dist\<close>); \<open>kKeep\<close> if the parent's
  flag is \<open>kKeep\<close> and the test fails; \<open>kDrop\<close> if the parent's flag is \<open>kDrop\<close> or
  \<open>kDropChildren\<close>. The flags of layer \<open>d\<close> in the table are those of the pass, except
  that one slot is set back to \<open>kKeep\<close> when the pass ends with \<open>all_drop\<close>.
\<close>

theorem flag_pass_rule:
  assumes "trim_wf has_dis depth' depth_adp node_num distance_err_all normal_err_all
             keys_all children_all"
  shows "\<exists>drop_all.
       generate_drop has_dis th_dist th_norm depth' depth_adp node_num distance_err_all
         normal_err_all children_all = Some drop_all
     \<and> (\<forall>d<depth_adp. drop_all ! d = replicate (node_num ! d) kKeep)
     \<and> (\<forall>d. depth_adp \<le> d \<and> d \<le> depth' \<longrightarrow>
          (\<exists>pass all_drop.
              foldM (flag_parent has_dis th_dist th_norm (distance_err_all ! d)
                       (normal_err_all ! d) (children_all ! d) (children_all ! (d - 1))
                       (drop_all ! (d - 1)))
                [0..<node_num ! (d - 1)] (replicate (node_num ! d) kKeep, True)
                = Some (pass, all_drop)
            \<and> (\<forall>i<node_num ! (d - 1). children_all ! (d - 1) ! i \<noteq> - 1 \<longrightarrow> (\<forall>j<8.
                  pass ! (8 * nat (children_all ! (d - 1) ! i) + j) =
                    (if drop_all ! (d - 1) ! i = kKeep
                     then (if normal_err_all ! d ! (8 * nat (children_all ! (d - 1) ! i) + j) < th_norm
                              \<and> (\<not> has_dis
                                  \<or> distance_err_all ! d ! (8 * nat (children_all ! (d - 1) ! i) + j)
                                      < th_dist)
                           then kDropChildren else kKeep)
                     else kDrop)))
            \<and> (drop_all ! d = pass
                \<or> (all_drop \<and> (\<exists>m<node_num ! d. drop_all ! d = pass[m := kKeep])))))"
proof -
  from generate_drop_result[OF assms, of th_dist th_norm] obtain D where
    gd: "generate_drop has_dis th_dist th_norm depth' depth_adp node_num distance_err_all
           normal_err_all children_all = Some D"
    and top: "\<forall>d<depth_adp. D ! d = replicate (node_num ! d) kKeep"
    and lay: "\<forall>d. depth_adp \<le> d \<and> d \<le> depth' \<longrightarrow>
          (\<exists>s<node_num ! d. D ! d ! s = kKeep \<and> children_all ! d ! s \<noteq> - 1)
          \<and> (\<exists>pass all_drop.
                foldM (flag_parent has_dis th_dist th_norm (distance_err_all ! d)
                         (normal_err_all ! d) (children_all ! d) (children_all ! (d - 1))
                         (D ! (d - 1)))
                  [0..<node_num ! (d - 1)] (replicate (node_num ! d) kKeep, True)
                  = Some (pass, all_drop)
              \<and> length pass = node_num ! d
              \<and> (\<forall>i<node_num ! (d - 1). \<forall>s. blk (children_all ! (d - 1)) i s \<longrightarrow>
                     pass ! s = new_flag (D ! (d - 1) ! i)
                        (condp has_dis th_dist th_norm (distance_err_all ! d) (normal_err_all ! d) s)
                        kKeep)
              \<and> (all_drop \<longleftrightarrow> (\<forall>i<node_num ! (d - 1). \<forall>s. blk (children_all ! (d - 1)) i s \<longrightarrow>
                       \<not> (pass ! s = kKeep \<and> children_all ! d ! s \<noteq> - 1)))
              \<and> (if all_drop
                  then \<exists>m\<in>cand (children_all ! (d - 1)) (D ! (d - 1)) (children_all ! d)
                              (node_num ! (d - 1)).
                         D ! d = pass[m := kKeep] \<and> m < node_num ! d
                       \<and> (\<forall>s\<in>cand (children_all ! (d - 1)) (D ! (d - 1)) (children_all ! d)
                                  (node_num ! (d - 1)).
                             normal_err_all ! d ! s \<le> normal_err_all ! d ! m)
                  else D ! d = pass))"
    by blast
  have main: "\<exists>pass all_drop.
              foldM (flag_parent has_dis th_dist th_norm (distance_err_all ! d)
                       (normal_err_all ! d) (children_all ! d) (children_all ! (d - 1))
                       (D ! (d - 1)))
                [0..<node_num ! (d - 1)] (replicate (node_num ! d) kKeep, True)
                = Some (pass, all_drop)
            \<and> (\<forall>i<node_num ! (d - 1). children_all ! (d - 1) ! i \<noteq> - 1 \<longrightarrow> (\<forall>j<8.
                  pass ! (8 * nat (children_all ! (d - 1) ! i) + j) =
                    (if D ! (d - 1) ! i = kKeep
                     then (if normal_err_all ! d ! (8 * nat (children_all ! (d - 1) ! i) + j) < th_norm
                              \<and> (\<not> has_dis
                                  \<or> distance_err_all ! d ! (8 * nat (children_all ! (d - 1) ! i) + j)
                                      < th_dist)
                           then kDropChildren else kKeep)
                     else kDrop)))
            \<and> (D ! d = pass \<or> (all_drop \<and> (\<exists>m<node_num ! d. D ! d = pass[m := kKeep])))"
    if d: "depth_adp \<le> d \<and> d \<le> depth'" for d
  proof -
    from lay[rule_format, OF d] obtain pass ad where
      p: "foldM (flag_parent has_dis th_dist th_norm (distance_err_all ! d)
                         (normal_err_all ! d) (children_all ! d) (children_all ! (d - 1))
                         (D ! (d - 1)))
                  [0..<node_num ! (d - 1)] (replicate (node_num ! d) kKeep, True)
                  = Some (pass, ad)"
      and v: "\<forall>i<node_num ! (d - 1). \<forall>s. blk (children_all ! (d - 1)) i s \<longrightarrow>
                     pass ! s = new_flag (D ! (d - 1) ! i)
                        (condp has_dis th_dist th_norm (distance_err_all ! d) (normal_err_all ! d) s)
                        kKeep"
      and rs: "if ad
                  then \<exists>m\<in>cand (children_all ! (d - 1)) (D ! (d - 1)) (children_all ! d)
                              (node_num ! (d - 1)).
                         D ! d = pass[m := kKeep] \<and> m < node_num ! d
                       \<and> (\<forall>s\<in>cand (children_all ! (d - 1)) (D ! (d - 1)) (children_all ! d)
                                  (node_num ! (d - 1)).
                             normal_err_all ! d ! s \<le> normal_err_all ! d ! m)
                  else D ! d = pass"
      by blast
    have rule: "pass ! (8 * nat (children_all ! (d - 1) ! i) + j) =
                    (if D ! (d - 1) ! i = kKeep
                     then (if normal_err_all ! d ! (8 * nat (children_all ! (d - 1) ! i) + j) < th_norm
                              \<and> (\<not> has_dis
                                  \<or> distance_err_all ! d ! (8 * nat (children_all ! (d - 1) ! i) + j)
                                      < th_dist)
                           then kDropChildren else kKeep)
                     else kDrop)"
      if i: "i < node_num ! (d - 1)" "children_all ! (d - 1) ! i \<noteq> - 1" and j: "j < 8" for i j
    proof -
      have b: "blk (children_all ! (d - 1)) i (8 * nat (children_all ! (d - 1) ! i) + j)"
        using i(2) j by (simp add: blk_def)
      show ?thesis using v[rule_format, OF i(1) b] by (auto simp: new_flag_def condp_def)
    qed
    have fin: "D ! d = pass \<or> (ad \<and> (\<exists>m<node_num ! d. D ! d = pass[m := kKeep]))"
      using rs by (cases ad) auto
    show ?thesis using p rule fin by blast
  qed
  show ?thesis using gd top main by blast
qed

theorem flag_pass_rule_witness:
  "build_structure 2 1 [25, 31, 56] = Some (ex_keys, ex_children)
   \<and> trim_wf False 2 1 [1, 8, 16] [[], [], []] ex_nerr ex_keys ex_children
   \<and> (\<exists>drop_all pass all_drop.
         generate_drop False 0 1 2 1 [1, 8, 16] [[], [], []] ex_nerr ex_children = Some drop_all
       \<and> foldM (flag_parent False 0 1 [] (ex_nerr ! 1) (ex_children ! 1) (ex_children ! 0)
                  (drop_all ! 0))
           [0..<1] (replicate 8 kKeep, True) = Some (pass, all_drop)
       \<and> pass ! 3 = kDropChildren \<and> pass ! 0 = kKeep)"
proof -
  have wf: "trim_wf False 2 1 [1, 8, 16] [[], [], []] ex_nerr ex_keys ex_children"
    unfolding trim_wf_def layer_wf_def internal_err_ok_def parents_nonempty_def
      ex_children_def ex_nerr_def ex_keys_def
    by (simp add: upt_rec)
  from flag_pass_rule[OF wf, of 0 1] obtain D where
    gd: "generate_drop False 0 1 2 1 [1, 8, 16] [[], [], []] ex_nerr ex_children = Some D"
    and top: "\<forall>d<1. D ! d = replicate ([1, 8, 16] ! d) kKeep"
    and lay: "\<forall>d. 1 \<le> d \<and> d \<le> 2 \<longrightarrow>
          (\<exists>pass all_drop.
              foldM (flag_parent False 0 1 ([[], [], []] ! d) (ex_nerr ! d) (ex_children ! d)
                       (ex_children ! (d - 1)) (D ! (d - 1)))
                [0..<[1, 8, 16] ! (d - 1)] (replicate ([1, 8, 16] ! d) kKeep, True)
                = Some (pass, all_drop)
            \<and> (\<forall>i<[1, 8, 16] ! (d - 1). ex_children ! (d - 1) ! i \<noteq> - 1 \<longrightarrow> (\<forall>j<8.
                  pass ! (8 * nat (ex_children ! (d - 1) ! i) + j) =
                    (if D ! (d - 1) ! i = kKeep
                     then (if ex_nerr ! d ! (8 * nat (ex_children ! (d - 1) ! i) + j) < 1
                              \<and> (\<not> False
                                  \<or> ([[], [], []] :: real list list) ! d
                                       ! (8 * nat (ex_children ! (d - 1) ! i) + j) < 0)
                           then kDropChildren else kKeep)
                     else kDrop)))
            \<and> (D ! d = pass \<or> (all_drop \<and> (\<exists>m<[1, 8, 16] ! d. D ! d = pass[m := kKeep]))))"
    by blast
  have d0: "D ! 0 = [kKeep]" using top by simp
  from lay[rule_format, of 1] obtain pass ad where
    p: "foldM (flag_parent False 0 1 [] (ex_nerr ! 1) (ex_children ! 1) (ex_children ! 0) (D ! 0))
           [0..<1] (replicate 8 kKeep, True) = Some (pass, ad)"
    and v: "\<forall>i<1. ex_children ! 0 ! i \<noteq> - 1 \<longrightarrow> (\<forall>j<8.
                  pass ! (8 * nat (ex_children ! 0 ! i) + j) =
                    (if D ! 0 ! i = kKeep
                     then (if ex_nerr ! 1 ! (8 * nat (ex_children ! 0 ! i) + j) < 1
                           then kDropChildren else kKeep)
                     else kDrop))"
    by auto
  have c0: "ex_children ! 0 ! 0 = 0" by (simp add: ex_children_def)
  have "pass ! (8 * nat (ex_children ! 0 ! 0) + 3) = kDropChildren"
    using v[rule_format, of 0 3] c0 d0 by (simp add: ex_nerr_def)
  moreover have "pass ! (8 * nat (ex_children ! 0 ! 0) + 0) = kKeep"
    using v[rule_format, of 0 0] c0 d0 by (simp add: ex_nerr_def)
  ultimately have "pass ! 3 = kDropChildren \<and> pass ! 0 = kKeep" using c0 by simp
  moreover have "build_structure 2 1 [25, 31, 56] = Some (ex_keys, ex_children)" by code_simp
  ultimately show ?thesis using wf gd p by blast
qed



end
